theory Spec2Isabelle
  imports Complex_Main "HOL-Library.Word" "HOL-Library.Signed_Division" "HOL-Library.Multiset"
begin

section \<open>Data model of \<open>length.go\<close>\<close>

text \<open>
  \<open>Length(v interface{}) (n int, err error)\<close> measures a Go value of unknown dynamic type.
  The model follows the file function by function.

  \<^item> A Go \<open>string\<close> and a \<open>[]byte\<close> are byte sequences: both are \<open>char list\<close>, a \<open>char\<close>
    being one 8-bit byte, so that \<open>string(b)\<close> is the identity and \<open>len\<close> is \<open>length\<close>.
  \<^item> \<open>int64\<close> and \<open>uint64\<close> are 64-bit words, read with \<open>sint\<close> and \<open>unat\<close>; the narrower
    integer types are widened by \<open>Length\<close> before they are measured.
  \<^item> Go's \<open>int\<close> is taken to be 64 bits wide. A length is an integer, and every addition
    that the composite functions make on the named result \<open>n\<close> wraps around as Go's
    does (\<open>add64\<close>); \<open>LengthJSON\<close> may report any \<open>int\<close>, also a negative or a huge one. The
    lengths of strings and byte slices are bounded by the memory that holds them and are
    computed without wrap-around.
  \<^item> A function with the named results \<open>(n int, err error)\<close> always returns both; the model
    returns the pair, \<open>None\<close> standing for a \<open>nil\<close> error, so that the \<open>n\<close> which
    accompanies an error stays visible.
  \<^item> A call that panics returns nothing: \<open>Length\<close> yields \<open>None\<close> then, and \<open>Some\<close> of the
    pair when it returns. The one panic of the file itself is
    \<open>v.MapIndex(k).Interface()\<close> in \<open>jsonLenMap\<close>, when the lookup of a key that
    \<open>MapKeys\<close> delivered finds nothing (a floating-point NaN is such a key) and \<open>MapIndex\<close>
    returns the zero \<open>reflect.Value\<close>.
  \<^item> A \<open>float64\<close> is represented by the text that
    \<open>strconv.AppendFloat(b, v, 'g', -1, 64)\<close> produces for it; the formatting algorithm of
    the standard library is not part of this file.
\<close>

type_synonym bytes = string
type_synonym int64 = "64 word"
type_synonym uint64 = "64 word"
type_synonym rtype = string

datatype error =
    UnsupportedValueError        \<comment> \<open>\<open>&json.UnsupportedValueError{Str: "the value is invalid"}\<close>\<close>
  | UnsupportedTypeError rtype   \<comment> \<open>\<open>&json.UnsupportedTypeError{Type: t}\<close>\<close>
  | InterfaceError               \<comment> \<open>\<open>fmt.Errorf("reflect: cannot call Interface on ...")\<close>\<close>
  | MarshalerError string        \<comment> \<open>any error a \<open>MarshalJSON\<close> or \<open>MarshalText\<close> method returns\<close>

datatype float64 = Float64 (fmt_g: string)

type_synonym result = "int \<times> error option"

text \<open>
  \<open>value\<close> is the content of an \<open>interface{}\<close>. The first constructors are the concrete
  dynamic types that the type switch of \<open>Length\<close> names; \<open>VOther\<close> is a value of any other
  dynamic type, given by what its methods return when the type implements \<open>Lengther\<close>,
  \<open>json.Marshaler\<close> or \<open>encoding.TextMarshaler\<close> (\<open>None\<close> when it does not), and by what
  \<open>reflect.ValueOf\<close> shows of it. The concrete types of the switch have none of these
  methods (\<open>json.Number\<close> has \<open>String\<close>, \<open>Float64\<close> and \<open>Int64\<close> only), so a value
  matches one concrete case at most, and never a concrete case and an interface case.

  \<open>rvalue\<close> is a \<open>reflect.Value\<close> seen through the calls \<open>jsonLenV\<close> makes on it, one
  constructor per branch of its switch on \<open>Kind()\<close>. A map lists its entries in the order
  \<open>MapKeys()\<close> (or \<open>range\<close>) delivers them, which Go leaves unspecified; an entry of a
  reflected map is the key and what \<open>v.MapIndex(k)\<close> finds for it, \<open>None\<close> when that is the
  zero \<open>reflect.Value\<close>. \<open>rv\<close> is the
  \<open>reflect.Value\<close> of an element, key or field: what \<open>CanInterface()\<close> and \<open>Interface()\<close>
  return. A \<open>field\<close> is one descriptor of \<open>LookupStruct(t)\<close> (its \<open>Name\<close> and
  \<open>Omitempty\<close>) together with the field \<open>v.FieldByIndex(f.Index)\<close> it selects and the
  answer of \<open>isEmptyValue\<close> on that field; \<open>LookupStruct\<close> and \<open>isEmptyValue\<close> are
  defined outside \<open>length.go\<close> and enter the model as this data.
\<close>

datatype "value" =
    VNil
  | VBool bool
  | VInt int64
  | VUint uint64
  | VFloat float64
  | VString string
  | VBytes bytes
  | VMapStringInterface "(string \<times> value) list"
  | VSliceInterface "value list"
  | VNumber string
  | VOther (LengthJSON: "int64 option")
           (MarshalJSON: "(bytes \<times> error option) option")
           (MarshalText: "(bytes \<times> error option) option")
           (ValueOf: rvalue)
and rvalue =
    RInvalid                      \<comment> \<open>\<open>!v.IsValid()\<close>\<close>
  | RStruct "field list"          \<comment> \<open>\<open>reflect.Struct\<close>\<close>
  | RMap "(rv \<times> value option) list"  \<comment> \<open>\<open>reflect.Map\<close>: the keys and \<open>v.MapIndex(k)\<close>\<close>
  | RBytes bytes                  \<comment> \<open>\<open>reflect.Slice\<close> with elements of kind \<open>Uint8\<close>: \<open>v.Bytes()\<close>\<close>
  | RSlice "rv list"              \<comment> \<open>\<open>reflect.Slice\<close> otherwise: \<open>v.Index(i)\<close> for \<open>i < v.Len()\<close>\<close>
  | RPtr "rv option"              \<comment> \<open>\<open>reflect.Ptr\<close>, \<open>reflect.Interface\<close>: \<open>None\<close> if \<open>v.IsNil()\<close>, else \<open>v.Elem()\<close>\<close>
  | RBool bool                    \<comment> \<open>\<open>reflect.Bool\<close>\<close>
  | RInt int64                    \<comment> \<open>\<open>reflect.Int\<close> to \<open>reflect.Int64\<close>: \<open>v.Int()\<close>\<close>
  | RUint uint64                  \<comment> \<open>\<open>reflect.Uint\<close> to \<open>reflect.Uint64\<close>: \<open>v.Uint()\<close>\<close>
  | RFloat float64                \<comment> \<open>\<open>reflect.Float32\<close>, \<open>reflect.Float64\<close>: \<open>v.Float()\<close>\<close>
  | RString string                \<comment> \<open>\<open>reflect.String\<close>\<close>
  | RArray "rv list"              \<comment> \<open>\<open>reflect.Array\<close>\<close>
  | RUintptr rtype uint64         \<comment> \<open>\<open>reflect.Uintptr\<close>, which no \<open>case\<close> names: the type and \<open>v.Uint()\<close>\<close>
  | ROther rtype                  \<comment> \<open>any other kind (channel, function, complex, ...) of type \<open>t\<close>\<close>
and rv = RV (CanInterface: bool) (Interface: "value")
and field = Field (Name: string) (Omitempty: bool) (isEmptyValue: bool) (fv: rv)

section \<open>Go's \<open>int\<close>\<close>

text \<open>
  The value of a 64-bit two's complement integer that an exact result wraps around to,
  and the addition and subtraction of Go's \<open>int\<close>.
\<close>

definition wrap64 :: "int \<Rightarrow> int" where
  "wrap64 k = (k + 2 ^ 63) mod 2 ^ 64 - 2 ^ 63"

definition add64 :: "int \<Rightarrow> int \<Rightarrow> int" where
  "add64 a b = wrap64 (a + b)"

definition sub64 :: "int \<Rightarrow> int \<Rightarrow> int" where
  "sub64 a b = wrap64 (a - b)"

section \<open>Primitive length rules\<close>

definition jsonLenNull :: int where
  "jsonLenNull = 4"

definition jsonLenBool :: "bool \<Rightarrow> int" where
  "jsonLenBool v = (if v then 4 else 5)"

text \<open>
  \<open>v /= 10\<close> on an \<open>int64\<close> truncates towards zero (\<open>sdiv\<close> on the signed reading); on a
  \<open>uint64\<close> it is the division of the word.
\<close>

definition div10 :: "int64 \<Rightarrow> int64" where
  "div10 v = word_of_int (sint v sdiv 10)"

lemma abs_sdiv10: "\<bar>k sdiv 10\<bar> = \<bar>k\<bar> div 10" for k :: int
  by (cases "k = 0") (simp_all add: signed_divide_int_def abs_mult)

lemma sint_div10: "sint (div10 v) = sint v sdiv 10"
proof -
  have "- (2 ^ 63) \<le> sint v" "sint v < 2 ^ 63"
    using sint_ge [of v] sint_lt [of v] by simp_all
  moreover have "\<bar>sint v sdiv 10\<bar> = \<bar>sint v\<bar> div 10"
    by (rule abs_sdiv10)
  ultimately have "- (2 ^ 63) \<le> sint v sdiv 10 \<and> sint v sdiv 10 < 2 ^ 63"
    by linarith
  then show ?thesis
    unfolding div10_def
    by (simp add: sint_sbintrunc' signed_take_bit_int_eq_self)
qed

lemma div10_decreases: "v \<noteq> 0 \<Longrightarrow> \<bar>sint (div10 v)\<bar> < \<bar>sint v\<bar>"
proof -
  assume "v \<noteq> 0"
  then have "sint v \<noteq> 0" by (simp add: signed_eq_0_iff)
  then have "\<bar>sint v\<bar> div 10 < \<bar>sint v\<bar>" by linarith
  then show ?thesis by (simp add: sint_div10 abs_sdiv10)
qed

function jsonLenInt_loop :: "int64 \<Rightarrow> int \<Rightarrow> int" where
  "jsonLenInt_loop v n = (if v \<noteq> 0 then jsonLenInt_loop (div10 v) (n + 1) else n)"
  by pat_completeness auto
termination
  by (relation "measure (\<lambda>(v, n). nat \<bar>sint v\<bar>)")
    (simp_all add: div10_decreases signed_eq_0_iff)

declare jsonLenInt_loop.simps [simp del]

definition jsonLenInt :: "int64 \<Rightarrow> int" where
  "jsonLenInt v =
    (if v = 0 then 1 else jsonLenInt_loop v (if sint v < 0 then 1 else 0))"

function jsonLenUint_loop :: "uint64 \<Rightarrow> int \<Rightarrow> int" where
  "jsonLenUint_loop v n = (if v \<noteq> 0 then jsonLenUint_loop (v div 10) (n + 1) else n)"
  by pat_completeness auto
termination
  by (relation "measure (\<lambda>(v, n). unat v)") (simp_all add: unat_div unat_gt_0)

declare jsonLenUint_loop.simps [simp del]

definition jsonLenUint :: "uint64 \<Rightarrow> int" where
  "jsonLenUint v = (if v = 0 then 1 else jsonLenUint_loop v 0)"

definition jsonLenFloat :: "float64 \<Rightarrow> int" where
  "jsonLenFloat v = int (length (fmt_g v))"

subsection \<open>Strings\<close>

text \<open>
  The constant \<open>escapedBytes = "/\"\\\n\t\r\v\b\f"\<close> of the fast path, and the \<open>case\<close> list
  \<open>'\n', '\t', '\r', '\v', '\b', '\f', '\\', '/', '"'\<close> of the slow path, each in the order
  of the source.
\<close>

definition escapedBytes :: string where
  "escapedBytes =
    [CHR 0x2F, CHR 0x22, CHR 0x5C, CHR 0x0A, CHR 0x09, CHR 0x0D, CHR 0x0B, CHR 0x08, CHR 0x0C]"

definition escaped_case :: "char \<Rightarrow> bool" where
  "escaped_case c \<longleftrightarrow>
    c \<in> set [CHR 0x0A, CHR 0x09, CHR 0x0D, CHR 0x0B, CHR 0x08, CHR 0x0C, CHR 0x5C, CHR 0x2F, CHR 0x22]"

text \<open>
  \<open>strings.IndexByte(s, c)\<close>: the index of the first \<open>c\<close> in \<open>s\<close>, or \<open>-1\<close>.
\<close>

fun IndexByte :: "string \<Rightarrow> char \<Rightarrow> int" where
  "IndexByte [] c = - 1"
| "IndexByte (b # s) c =
    (if b = c then 0 else (let i = IndexByte s c in if i < 0 then - 1 else i + 1))"

text \<open>
  The slow path is \<open>for i := range s { switch s[i] ... }\<close>. A \<open>range\<close> over a string
  does not visit every byte: it decodes UTF-8 and \<open>i\<close> is the index of the first byte of
  each code point, an invalid sequence advancing by one byte. \<open>decoderune_width\<close> is the
  number of bytes one iteration consumes at the head of the rest of the string, as Go's
  decoder for \<open>range\<close> computes it.
\<close>

definition continuation :: "char \<Rightarrow> bool" where
  "continuation b \<longleftrightarrow> 0x80 \<le> (of_char b :: nat) \<and> (of_char b :: nat) \<le> 0xBF"

definition rune2 :: "char \<Rightarrow> char \<Rightarrow> nat" where
  "rune2 b0 b1 = (of_char b0 mod 0x20) * 0x40 + of_char b1 mod 0x40"

definition rune3 :: "char \<Rightarrow> char \<Rightarrow> char \<Rightarrow> nat" where
  "rune3 b0 b1 b2 =
    (of_char b0 mod 0x10) * 0x1000 + (of_char b1 mod 0x40) * 0x40 + of_char b2 mod 0x40"

definition rune4 :: "char \<Rightarrow> char \<Rightarrow> char \<Rightarrow> char \<Rightarrow> nat" where
  "rune4 b0 b1 b2 b3 =
    (of_char b0 mod 0x08) * 0x40000 + (of_char b1 mod 0x40) * 0x1000
      + (of_char b2 mod 0x40) * 0x40 + of_char b3 mod 0x40"

fun decoderune_width :: "string \<Rightarrow> nat" where
  "decoderune_width [] = 1"
| "decoderune_width (b0 # s) =
    (let c0 = of_char b0 :: nat in
     if c0 < 0x80 then 1
     else if 0xC0 \<le> c0 \<and> c0 < 0xE0 then
       (case s of
          b1 # _ \<Rightarrow> if continuation b1 \<and> 0x7F < rune2 b0 b1 then 2 else 1
        | _ \<Rightarrow> 1)
     else if 0xE0 \<le> c0 \<and> c0 < 0xF0 then
       (case s of
          b1 # b2 # _ \<Rightarrow>
            if continuation b1 \<and> continuation b2 \<and> 0x7FF < rune3 b0 b1 b2
               \<and> \<not> (0xD800 \<le> rune3 b0 b1 b2 \<and> rune3 b0 b1 b2 \<le> 0xDFFF)
            then 3 else 1
        | _ \<Rightarrow> 1)
     else if 0xF0 \<le> c0 \<and> c0 < 0xF8 then
       (case s of
          b1 # b2 # b3 # _ \<Rightarrow>
            if continuation b1 \<and> continuation b2 \<and> continuation b3
               \<and> 0xFFFF < rune4 b0 b1 b2 b3 \<and> rune4 b0 b1 b2 b3 \<le> 0x10FFFF
            then 4 else 1
        | _ \<Rightarrow> 1)
     else 1)"

lemma decoderune_width_pos: "0 < decoderune_width s"
  by (cases s) (simp_all add: Let_def split: list.split)

function slowPath_loop :: "string \<Rightarrow> int \<Rightarrow> int" where
  "slowPath_loop [] n = n"
| "slowPath_loop (b # s) n =
    slowPath_loop (drop (decoderune_width (b # s)) (b # s))
      (if escaped_case b then n + 1 else n)"
  by pat_completeness auto
termination
proof (relation "measure (\<lambda>(s, n). length s)")
  show "wf (measure (\<lambda>(s, n). length s))"
    by simp
next
  fix b :: char and s :: string and n :: int
  have "0 < decoderune_width (b # s)"
    by (rule decoderune_width_pos)
  then show "((drop (decoderune_width (b # s)) (b # s), if escaped_case b then n + 1 else n),
              (b # s, n)) \<in> measure (\<lambda>(s, n). length s)"
    by simp
qed

definition slowPath :: "string \<Rightarrow> int" where
  "slowPath s = slowPath_loop s 0 + 2 + int (length s)"

text \<open>
  The scan of the fast path: \<open>True\<close> when it leaves by \<open>goto slowPath\<close>, by the three
  cases of \<open>switch len(s)\<close>.
\<close>

fun fastPath_escapes :: "string \<Rightarrow> bool" where
  "fastPath_escapes [] = False"
| "fastPath_escapes [b] = list_ex (\<lambda>e. b = e) escapedBytes"
| "fastPath_escapes s = list_ex (\<lambda>e. 0 \<le> IndexByte s e) escapedBytes"

definition jsonLenString :: "string \<Rightarrow> int" where
  "jsonLenString s =
    (if length s < 100 then
       (if fastPath_escapes s then slowPath s else 2 + int (length s))
     else slowPath s)"

definition jsonLenBytes :: "bytes \<Rightarrow> int" where
  "jsonLenBytes b = 2 + (int (length b) * 4) sdiv 3"

section \<open>Dispatcher and composite length engine\<close>

text \<open>
  \<open>Length\<close>, \<open>jsonLenV\<close> and the five composite functions call each other. Each loop of
  the source is a recursion over what is left to traverse, carrying the loop's variables
  (\<open>i\<close> and the named result \<open>n\<close>); a bare \<open>return\<close> inside a loop yields the current
  \<open>n\<close> together with the error, and a panic of a nested call ends the call. In
  \<open>Length\<close>, the cases of the type switch for interface types are tried in the order of the
  source: \<open>Lengther\<close>, \<open>json.Marshaler\<close>, \<open>encoding.TextMarshaler\<close>, and reflection by
  default.
\<close>

function (sequential) Length :: "value \<Rightarrow> result option"
and jsonLenV :: "rvalue \<Rightarrow> result option"
and jsonLenArray :: "rv list \<Rightarrow> result option"
and jsonLenArray_loop :: "nat \<Rightarrow> int \<Rightarrow> rv list \<Rightarrow> result option"
and jsonLenMap :: "(rv \<times> value option) list \<Rightarrow> result option"
and jsonLenMap_loop :: "nat \<Rightarrow> int \<Rightarrow> (rv \<times> value option) list \<Rightarrow> result option"
and jsonLenStruct :: "field list \<Rightarrow> result option"
and jsonLenStruct_loop :: "int \<Rightarrow> field list \<Rightarrow> result option"
and jsonLenSliceInterface :: "value list \<Rightarrow> result option"
and jsonLenSliceInterface_loop :: "int \<Rightarrow> value list \<Rightarrow> result option"
and jsonLenMapStringInterface :: "(string \<times> value) list \<Rightarrow> result option"
and jsonLenMapStringInterface_loop :: "int \<Rightarrow> (string \<times> value) list \<Rightarrow> result option"
where
  "Length VNil = Some (jsonLenNull, None)"
| "Length (VBool x) = Some (jsonLenBool x, None)"
| "Length (VInt x) = Some (jsonLenInt x, None)"
| "Length (VUint x) = Some (jsonLenUint x, None)"
| "Length (VFloat x) = Some (jsonLenFloat x, None)"
| "Length (VString x) = Some (jsonLenString x, None)"
| "Length (VBytes x) = Some (jsonLenBytes x, None)"
| "Length (VMapStringInterface x) = jsonLenMapStringInterface x"
| "Length (VSliceInterface x) = jsonLenSliceInterface x"
| "Length (VNumber x) = Some (int (length x), None)"
| "Length (VOther lengther marshaler textMarshaler r) =
    (case lengther of
       Some l \<Rightarrow> Some (sint l, None)
     | None \<Rightarrow>
        (case marshaler of
           Some (b, err) \<Rightarrow> Some (if err = None then (int (length b), None) else (0, err))
         | None \<Rightarrow>
            (case textMarshaler of
               Some (b, err) \<Rightarrow> Some (if err = None then (jsonLenString b, None) else (0, err))
             | None \<Rightarrow> jsonLenV r)))"

| "jsonLenV RInvalid = Some (0, Some UnsupportedValueError)"
| "jsonLenV (RStruct fs) = jsonLenStruct fs"
| "jsonLenV (RMap m) = jsonLenMap m"
| "jsonLenV (RBytes b) = Some (jsonLenBytes b, None)"
| "jsonLenV (RSlice es) = jsonLenArray es"
| "jsonLenV (RPtr None) = Some (jsonLenNull, None)"
| "jsonLenV (RPtr (Some (RV can x))) =
    (if \<not> can then Some (0, Some InterfaceError) else Length x)"
| "jsonLenV (RBool b) = Some (jsonLenBool b, None)"
| "jsonLenV (RInt i) = Some (jsonLenInt i, None)"
| "jsonLenV (RUint u) = Some (jsonLenUint u, None)"
| "jsonLenV (RFloat f) = Some (jsonLenFloat f, None)"
| "jsonLenV (RString s) = Some (jsonLenString s, None)"
| "jsonLenV (RArray es) = jsonLenArray es"
| "jsonLenV (RUintptr t u) = Some (0, Some (UnsupportedTypeError t))"
| "jsonLenV (ROther t) = Some (0, Some (UnsupportedTypeError t))"

| "jsonLenArray es = jsonLenArray_loop 0 0 es"
| "jsonLenArray_loop i n [] = Some (add64 n 2, None)"
| "jsonLenArray_loop i n (RV can x # es) =
    (let n = (if i \<noteq> 0 then add64 n 1 else n) in
     if \<not> can then Some (n, Some InterfaceError)
     else
       (case Length x of
          None \<Rightarrow> None
        | Some (c, Some err) \<Rightarrow> Some (n, Some err)
        | Some (c, None) \<Rightarrow> jsonLenArray_loop (i + 1) (add64 n c) es))"

| "jsonLenMap m = jsonLenMap_loop 0 0 m"
| "jsonLenMap_loop i n [] = Some (add64 n 2, None)"
| "jsonLenMap_loop i n ((RV can k, found) # m) =
    (if \<not> can then Some (n, Some InterfaceError)
     else
       (let n = (if i \<noteq> 0 then add64 n 1 else n) in
        case Length k of
          None \<Rightarrow> None
        | Some (c1, Some err) \<Rightarrow> Some (n, Some err)
        | Some (c1, None) \<Rightarrow>
           (case found of
              None \<Rightarrow> None
            | Some x \<Rightarrow>
               (case Length x of
                  None \<Rightarrow> None
                | Some (c2, Some err) \<Rightarrow> Some (n, Some err)
                | Some (c2, None) \<Rightarrow>
                    jsonLenMap_loop (i + 1) (add64 n (add64 (add64 c1 c2) 1)) m))))"

| "jsonLenStruct fs = jsonLenStruct_loop 0 fs"
| "jsonLenStruct_loop n [] = Some (add64 n 2, None)"
| "jsonLenStruct_loop n (Field name omitempty isEmpty (RV can x) # fs) =
    (if omitempty \<and> isEmpty then jsonLenStruct_loop n fs
     else if \<not> can then Some (n, Some InterfaceError)
     else
       (case Length x of
          None \<Rightarrow> None
        | Some (c, Some err) \<Rightarrow> Some (n, Some err)
        | Some (c, None) \<Rightarrow>
           (let n = (if n \<noteq> 0 then add64 n 1 else n) in
            jsonLenStruct_loop (add64 n (add64 (add64 (jsonLenString name) c) 1)) fs)))"

| "jsonLenSliceInterface s =
    (case jsonLenSliceInterface_loop 0 s of
       None \<Rightarrow> None
     | Some (n, Some err) \<Rightarrow> Some (n, Some err)
     | Some (n, None) \<Rightarrow>
        (let c = int (length s);
             n = (if c > 1 then add64 n (sub64 c 1) else n)
         in Some (add64 n 2, None)))"
| "jsonLenSliceInterface_loop n [] = Some (n, None)"
| "jsonLenSliceInterface_loop n (v # s) =
    (case Length v of
       None \<Rightarrow> None
     | Some (c, Some err) \<Rightarrow> Some (n, Some err)
     | Some (c, None) \<Rightarrow> jsonLenSliceInterface_loop (add64 n c) s)"

| "jsonLenMapStringInterface m =
    (case jsonLenMapStringInterface_loop 0 m of
       None \<Rightarrow> None
     | Some (n, Some err) \<Rightarrow> Some (n, Some err)
     | Some (n, None) \<Rightarrow>
        (let c = int (length m);
             n = (if c > 1 then add64 n (sub64 c 1) else n)
         in Some (add64 n 2, None)))"
| "jsonLenMapStringInterface_loop n [] = Some (n, None)"
| "jsonLenMapStringInterface_loop n ((k, v) # m) =
    (case Length v of
       None \<Rightarrow> None
     | Some (c, Some err) \<Rightarrow> Some (n, Some err)
     | Some (c, None) \<Rightarrow>
         jsonLenMapStringInterface_loop (add64 n (add64 (add64 (jsonLenString k) c) 1)) m)"
  by pat_completeness auto

text \<open>
  Every call descends into the value: a wrapper passes its list on to its loop, a loop
  measures one entry and goes on with the rest.
\<close>

termination
  by (relation "measure
    (case_sum
      (case_sum
        (case_sum (\<lambda>v. 2 * size v)
          (case_sum (\<lambda>r. 2 * size r) (\<lambda>es. 2 * size (RSlice es) - 1)))
        (case_sum (\<lambda>(i, n, es). 2 * size (RSlice es) - 2)
          (case_sum (\<lambda>m. 2 * size (RMap m) - 1) (\<lambda>(i, n, m). 2 * size (RMap m) - 2))))
      (case_sum
        (case_sum (\<lambda>fs. 2 * size (RStruct fs) - 1)
          (case_sum (\<lambda>(n, fs). 2 * size (RStruct fs) - 2)
            (\<lambda>s. 2 * size (VSliceInterface s) - 1)))
        (case_sum (\<lambda>(n, s). 2 * size (VSliceInterface s) - 2)
          (case_sum (\<lambda>m. 2 * size (VMapStringInterface m) - 1)
            (\<lambda>(n, m). 2 * size (VMapStringInterface m) - 2)))))")
    auto

section \<open>The specification's vocabulary\<close>

text \<open>
  The characters the specification lists as requiring an escape: the double quote, the
  backslash, the slash, newline, tab, carriage return, vertical tab, backspace and form
  feed.
\<close>

definition needs_escape :: "char \<Rightarrow> bool" where
  "needs_escape c \<longleftrightarrow>
    c \<in> {CHR 0x22, CHR 0x5C, CHR 0x2F, CHR 0x0A, CHR 0x09, CHR 0x0D, CHR 0x0B, CHR 0x08, CHR 0x0C}"

text \<open>
  The decimal representation of a natural number and of an integer, the latter with a
  leading minus sign when negative.
\<close>

definition digit :: "nat \<Rightarrow> char" where
  "digit d = char_of (48 + d)"

fun decimal :: "nat \<Rightarrow> string" where
  "decimal n = (if n < 10 then [digit n] else decimal (n div 10) @ [digit (n mod 10)])"

definition decimal_int :: "int \<Rightarrow> string" where
  "decimal_int k = (if k < 0 then CHR ''-'' # decimal (nat (- k)) else decimal (nat k))"

declare decimal.simps [simp del]

text \<open>
  The outcome of measuring a value: it measures successfully when \<open>Length\<close> returns a
  length and no error, and \<open>length_of\<close> is the length returned; it fails with \<open>e\<close> when
  \<open>Length\<close> returns the error \<open>e\<close>. A call that panics does neither.
\<close>

definition succeeds :: "value \<Rightarrow> bool" where
  "succeeds v \<longleftrightarrow> (case Length v of Some (c, None) \<Rightarrow> True | _ \<Rightarrow> False)"

definition length_of :: "value \<Rightarrow> int" where
  "length_of v = (case Length v of Some (c, e) \<Rightarrow> c | None \<Rightarrow> 0)"

definition fails_with :: "value \<Rightarrow> error \<Rightarrow> bool" where
  "fails_with v e \<longleftrightarrow> (case Length v of Some (c, Some e') \<Rightarrow> e' = e | _ \<Rightarrow> False)"

text \<open>
  The same for a reflected element, which must first be accessible, and for an entry of
  a reflected map, whose key is measured before its value is looked up and measured.
\<close>

definition elem_succeeds :: "rv \<Rightarrow> bool" where
  "elem_succeeds h \<longleftrightarrow> CanInterface h \<and> succeeds (Interface h)"

definition elem_length :: "rv \<Rightarrow> int" where
  "elem_length h = length_of (Interface h)"

definition elem_fails_with :: "rv \<Rightarrow> error \<Rightarrow> bool" where
  "elem_fails_with h e \<longleftrightarrow>
    (if CanInterface h then fails_with (Interface h) e else e = InterfaceError)"

definition rentry_succeeds :: "rv \<times> value option \<Rightarrow> bool" where
  "rentry_succeeds p \<longleftrightarrow>
    elem_succeeds (fst p) \<and> (case snd p of Some x \<Rightarrow> succeeds x | None \<Rightarrow> False)"

definition rentry_fails_with :: "rv \<times> value option \<Rightarrow> error \<Rightarrow> bool" where
  "rentry_fails_with p e \<longleftrightarrow>
    (if elem_succeeds (fst p)
     then (case snd p of Some x \<Rightarrow> fails_with x e | None \<Rightarrow> False)
     else elem_fails_with (fst p) e)"

text \<open>
  The framing of a composite, in exact integers: 2 for the brackets or braces, the
  contributions of the entries, and one separator between any two of them, that is
  \<open>N - 1\<close> separators for \<open>N > 1\<close> entries and none otherwise. \<open>in_int64\<close> says that an
  exact total is one that Go's \<open>int\<close> holds.
\<close>

definition framed_total :: "int list \<Rightarrow> int" where
  "framed_total cs =
    2 + sum_list cs + (if 1 < length cs then int (length cs) - 1 else 0)"

definition in_int64 :: "int \<Rightarrow> bool" where
  "in_int64 k \<longleftrightarrow> - (2 ^ 63) \<le> k \<and> k < 2 ^ 63"

text \<open>
  The contribution of one map entry: the key, the colon and the value. The key of a
  text-keyed map is measured as a string, the key of a reflected map by \<open>Length\<close>.
\<close>

definition entry_contribution :: "string \<times> value \<Rightarrow> int" where
  "entry_contribution p = jsonLenString (fst p) + 1 + length_of (snd p)"

definition rentry_contribution :: "rv \<times> value option \<Rightarrow> int" where
  "rentry_contribution p =
    elem_length (fst p) + 1 + (case snd p of Some x \<Rightarrow> length_of x | None \<Rightarrow> 0)"

text \<open>
  Records: a field is omitted when its descriptor says omit-if-empty and its value is
  empty; the other fields are emitted, each contributing its quoted name, the colon and
  its value. \<open>record_total\<close> is the total the specification gives for a record.
\<close>

definition omitted :: "field \<Rightarrow> bool" where
  "omitted f \<longleftrightarrow> Omitempty f \<and> isEmptyValue f"

definition emitted :: "field list \<Rightarrow> field list" where
  "emitted fs = filter (\<lambda>f. \<not> omitted f) fs"

definition field_contribution :: "field \<Rightarrow> int" where
  "field_contribution f = jsonLenString (Name f) + 1 + elem_length (fv f)"

definition record_total :: "field list \<Rightarrow> int" where
  "record_total fs = framed_total (map field_contribution (emitted fs))"

text \<open>
  The dispatch categories of the specification, in its resolution order; which of them a
  value satisfies; and what the rule of a category computes for a value that satisfies
  it. Every value can be handed to reflection: \<open>reflect_ValueOf\<close> is what
  \<open>reflect.ValueOf\<close> shows of a value of one of the concrete types of the type switch
  (\<open>json.Number\<close> is a string type; the keys of a \<open>map[string]interface{}\<close> are
  strings that a lookup finds again; \<open>reflect.ValueOf(nil)\<close> is the zero value).
\<close>

datatype category =
    Null | Primitive | GenericContainer | OverrideLength | NumberText | OwnJSON | OwnText
  | Introspection

definition resolution_order :: "category list" where
  "resolution_order =
    [Null, Primitive, GenericContainer, OverrideLength, NumberText, OwnJSON, OwnText,
     Introspection]"

definition applies :: "category \<Rightarrow> value \<Rightarrow> bool" where
  "applies c v =
    (case c of
       Null \<Rightarrow> (case v of VNil \<Rightarrow> True | _ \<Rightarrow> False)
     | Primitive \<Rightarrow>
        (case v of
           VBool _ \<Rightarrow> True | VInt _ \<Rightarrow> True | VUint _ \<Rightarrow> True | VFloat _ \<Rightarrow> True
         | VString _ \<Rightarrow> True | VBytes _ \<Rightarrow> True | _ \<Rightarrow> False)
     | GenericContainer \<Rightarrow>
        (case v of VMapStringInterface _ \<Rightarrow> True | VSliceInterface _ \<Rightarrow> True | _ \<Rightarrow> False)
     | OverrideLength \<Rightarrow> (case v of VOther (Some _) _ _ _ \<Rightarrow> True | _ \<Rightarrow> False)
     | NumberText \<Rightarrow> (case v of VNumber _ \<Rightarrow> True | _ \<Rightarrow> False)
     | OwnJSON \<Rightarrow> (case v of VOther _ (Some _) _ _ \<Rightarrow> True | _ \<Rightarrow> False)
     | OwnText \<Rightarrow> (case v of VOther _ _ (Some _) _ \<Rightarrow> True | _ \<Rightarrow> False)
     | Introspection \<Rightarrow> True)"

definition reflect_ValueOf :: "value \<Rightarrow> rvalue" where
  "reflect_ValueOf v =
    (case v of
       VNil \<Rightarrow> RInvalid
     | VBool b \<Rightarrow> RBool b
     | VInt i \<Rightarrow> RInt i
     | VUint u \<Rightarrow> RUint u
     | VFloat f \<Rightarrow> RFloat f
     | VString s \<Rightarrow> RString s
     | VBytes b \<Rightarrow> RBytes b
     | VMapStringInterface m \<Rightarrow> RMap (map (\<lambda>p. (RV True (VString (fst p)), Some (snd p))) m)
     | VSliceInterface s \<Rightarrow> RSlice (map (RV True) s)
     | VNumber s \<Rightarrow> RString s
     | VOther _ _ _ r \<Rightarrow> r)"

definition rule :: "category \<Rightarrow> value \<Rightarrow> result option" where
  "rule c v =
    (case (c, v) of
       (Null, _) \<Rightarrow> Some (4, None)
     | (Primitive, VBool b) \<Rightarrow> Some (jsonLenBool b, None)
     | (Primitive, VInt i) \<Rightarrow> Some (jsonLenInt i, None)
     | (Primitive, VUint u) \<Rightarrow> Some (jsonLenUint u, None)
     | (Primitive, VFloat f) \<Rightarrow> Some (jsonLenFloat f, None)
     | (Primitive, VString s) \<Rightarrow> Some (jsonLenString s, None)
     | (Primitive, VBytes b) \<Rightarrow> Some (jsonLenBytes b, None)
     | (GenericContainer, VMapStringInterface m) \<Rightarrow> jsonLenMapStringInterface m
     | (GenericContainer, VSliceInterface s) \<Rightarrow> jsonLenSliceInterface s
     | (OverrideLength, VOther (Some l) _ _ _) \<Rightarrow> Some (sint l, None)
     | (NumberText, VNumber s) \<Rightarrow> Some (int (length s), None)
     | (OwnJSON, VOther _ (Some (b, err)) _ _) \<Rightarrow>
         Some (if err = None then (int (length b), None) else (0, err))
     | (OwnText, VOther _ _ (Some (b, err)) _) \<Rightarrow>
         Some (if err = None then (jsonLenString b, None) else (0, err))
     | (_, _) \<Rightarrow> jsonLenV (reflect_ValueOf v))"

section \<open>Wrap-around\<close>

lemma wrap64_add_left: "wrap64 (wrap64 a + b) = wrap64 (a + b)"
  by (simp add: wrap64_def mod_simps algebra_simps)

lemma wrap64_add_right: "wrap64 (a + wrap64 b) = wrap64 (a + b)"
  by (simp add: wrap64_def mod_simps algebra_simps)

lemma wrap64_wrap64: "wrap64 (wrap64 a) = wrap64 a"
  using wrap64_add_left [of a 0] by simp

lemma wrap64_0: "wrap64 0 = 0"
  by (simp add: wrap64_def)

lemma wrap64_in_int64: "in_int64 k \<Longrightarrow> wrap64 k = k"
  by (simp add: wrap64_def in_int64_def)

lemma in_int64_wrap64: "in_int64 (wrap64 k)"
proof -
  have "0 \<le> (k + 2 ^ 63) mod 2 ^ 64" "(k + 2 ^ 63) mod 2 ^ 64 < (2 ^ 64 :: int)"
    by simp_all
  then show ?thesis
    by (simp add: wrap64_def in_int64_def)
qed

lemma add64_wrap64_left: "add64 (wrap64 a) b = wrap64 (a + b)"
  by (simp add: add64_def wrap64_add_left)

lemma add64_wrap64_right: "add64 a (wrap64 b) = wrap64 (a + b)"
  by (simp add: add64_def wrap64_add_right)

lemma add64_add64_right: "add64 a (add64 b c) = wrap64 (a + (b + c))"
  by (simp add: add64_def wrap64_add_right)

lemma add64_sub64_right: "add64 a (sub64 b c) = wrap64 (a + (b - c))"
  by (simp add: add64_def sub64_def wrap64_add_right)

lemmas wrap64_simps =
  add64_wrap64_left add64_wrap64_right add64_add64_right add64_sub64_right
  wrap64_add_left wrap64_add_right wrap64_wrap64

lemma wrap64_sint: "wrap64 k = sint (word_of_int k :: 64 word)"
  by (simp add: wrap64_def sint_sbintrunc' signed_take_bit_eq_take_bit_shift take_bit_eq_mod)

lemma word_of_int_wrap64: "(word_of_int (wrap64 k) :: 64 word) = word_of_int k"
  by (simp add: wrap64_sint)

lemma wrap64_eqI: "(word_of_int a :: 64 word) = word_of_int b \<Longrightarrow> wrap64 a = wrap64 b"
  by (simp add: wrap64_sint)

lemma separator_wrap64:
  "(if i \<noteq> (0 :: nat) then add64 (wrap64 a) 1 else wrap64 a)
     = wrap64 (a + (if i = 0 then 0 else 1))"
  by (cases "i = 0") (simp_all add: add64_wrap64_left)

lemma add64_contribution:
  "add64 (wrap64 a) (add64 (add64 x c) 1) = wrap64 (a + (x + 1 + c))"
  unfolding add64_def by (rule wrap64_eqI) (simp add: word_of_int_wrap64)

section \<open>Strings\<close>

lemma escaped_case_iff: "escaped_case c \<longleftrightarrow> needs_escape c"
  by (auto simp: escaped_case_def needs_escape_def)

lemma escapedBytes_iff: "c \<in> set escapedBytes \<longleftrightarrow> needs_escape c"
  by (auto simp: escapedBytes_def needs_escape_def)

lemma continuation_not_escaped: "continuation c \<Longrightarrow> \<not> escaped_case c"
  by (auto simp: continuation_def escaped_case_def)

lemma filter_drop_rune:
  "filter escaped_case (drop (decoderune_width (b # s)) (b # s)) = filter escaped_case s"
  by (auto simp: Let_def continuation_not_escaped split: list.split)

lemma slowPath_loop_count:
  "slowPath_loop s n = n + int (length (filter escaped_case s))"
proof (induction s n rule: slowPath_loop.induct)
  case (1 n)
  show ?case by simp
next
  case (2 b s n)
  show ?case
    by (simp add: 2 filter_drop_rune del: decoderune_width.simps)
qed

lemma IndexByte_nonneg_iff: "0 \<le> IndexByte s c \<longleftrightarrow> c \<in> set s"
  by (induction s) (auto simp: Let_def)

lemma fastPath_escapes_iff: "fastPath_escapes s \<longleftrightarrow> (\<exists>c\<in>set s. needs_escape c)"
proof (cases s rule: fastPath_escapes.cases)
  case 1
  then show ?thesis by simp
next
  case (2 b)
  then show ?thesis
    using escapedBytes_iff [of b] by (auto simp: list_ex_iff)
next
  case (3 b c r)
  then show ?thesis
    using escapedBytes_iff by (auto simp: list_ex_iff IndexByte_nonneg_iff simp del: IndexByte.simps)
qed

lemma slowPath_eq: "slowPath s = 2 + int (length s) + int (length (filter needs_escape s))"
proof -
  have "filter escaped_case s = filter needs_escape s"
    by (rule filter_cong) (simp_all add: escaped_case_iff)
  then show ?thesis
    by (simp add: slowPath_def slowPath_loop_count)
qed

lemma jsonLenString_slowPath: "jsonLenString s = slowPath s"
proof (cases "length s < 100 \<and> \<not> fastPath_escapes s")
  case True
  then have "filter needs_escape s = []"
    by (auto simp: fastPath_escapes_iff filter_empty_conv)
  with True show ?thesis
    by (simp add: jsonLenString_def slowPath_eq)
next
  case False
  then show ?thesis
    by (auto simp: jsonLenString_def)
qed

text \<open>
  Claim C1. For every string \<open>s\<close>, \<open>Length\<close> succeeds with 2 for the quotes, the number of
  bytes of \<open>s\<close>, and one more for every byte of \<open>s\<close> that requires an escape, whether the
  string is met by the type switch or by reflection. The function as a whole (fast path
  included) agrees with the counting slow path on every input, and the slow path obeys
  the same formula.
\<close>

theorem Length_string:
  "Length (VString s) = Some (2 + int (length s) + int (length (filter needs_escape s)), None)
   \<and> Length (VOther None None None (RString s))
       = Some (2 + int (length s) + int (length (filter needs_escape s)), None)
   \<and> jsonLenString s = slowPath s
   \<and> slowPath s = 2 + int (length s) + int (length (filter needs_escape s))"
  using jsonLenString_slowPath [of s] slowPath_eq [of s] by simp

text \<open>
  Claim C6, as stated: \<open>Length\<close> of the three bytes \<open>a/b\<close> is \<open>(7, nil)\<close>. That is not what
  \<open>jsonLenString\<close> computes.
\<close>

theorem Length_a_slash_b_is_not_7: "Length (VString ''a/b'') \<noteq> Some (7, None)"
  by code_simp

text \<open>
  Claim C6, amended: \<open>Length\<close> of the three bytes \<open>a/b\<close> is \<open>(6, nil)\<close>: two quotes, three
  bytes, and one escape for the slash.
\<close>

theorem Length_a_slash_b: "Length (VString ''a/b'') = Some (6, None)"
  by code_simp

section \<open>Integers\<close>

lemma length_decimal:
  "length (decimal n) = (if n < 10 then 1 else length (decimal (n div 10)) + 1)"
  by (subst decimal.simps) simp

lemma length_decimal_0: "length (decimal 0) = 1"
  by (simp add: decimal.simps)

lemma jsonLenUint_loop_digits:
  "v \<noteq> 0 \<Longrightarrow> jsonLenUint_loop v n = n + int (length (decimal (unat v)))"
proof (induction v n rule: jsonLenUint_loop.induct)
  case (1 v n)
  show ?case
  proof (cases "v div 10 = 0")
    case True
    then have "unat (v div 10) = 0"
      by simp
    then have "unat v div 10 = 0"
      by (simp add: unat_div)
    then have "unat v < 10" by simp
    with 1 True show ?thesis
      by (subst jsonLenUint_loop.simps, subst jsonLenUint_loop.simps, subst length_decimal) simp
  next
    case False
    then have "unat (v div 10) \<noteq> 0"
      by (simp add: unat_eq_0)
    then have ge: "\<not> unat v < 10"
      by (auto simp: unat_div)
    have "jsonLenUint_loop (v div 10) (n + 1) = n + 1 + int (length (decimal (unat (v div 10))))"
      using 1 False by simp
    with 1 ge show ?thesis
      by (subst jsonLenUint_loop.simps, subst length_decimal) (simp add: unat_div)
  qed
qed

lemma jsonLenUint_digits: "jsonLenUint v = int (length (decimal (unat v)))"
proof (cases "v = 0")
  case True
  then show ?thesis by (simp add: jsonLenUint_def length_decimal_0)
next
  case False
  then show ?thesis by (simp add: jsonLenUint_def jsonLenUint_loop_digits)
qed

lemma jsonLenInt_loop_digits:
  "v \<noteq> 0 \<Longrightarrow> jsonLenInt_loop v n = n + int (length (decimal (nat \<bar>sint v\<bar>)))"
proof (induction v n rule: jsonLenInt_loop.induct)
  case (1 v n)
  have d: "nat \<bar>sint (div10 v)\<bar> = nat \<bar>sint v\<bar> div 10"
    by (simp add: sint_div10 abs_sdiv10 nat_div_distrib)
  show ?case
  proof (cases "div10 v = 0")
    case True
    then have "nat \<bar>sint v\<bar> div 10 = 0"
      using d by simp
    then have "nat \<bar>sint v\<bar> < 10" by simp
    with 1 True show ?thesis
      by (subst jsonLenInt_loop.simps, subst jsonLenInt_loop.simps, subst length_decimal) simp
  next
    case False
    then have "nat \<bar>sint (div10 v)\<bar> \<noteq> 0"
      by (simp add: signed_eq_0_iff)
    then have ge: "\<not> nat \<bar>sint v\<bar> < 10"
      using d by auto
    have "jsonLenInt_loop (div10 v) (n + 1) = n + 1 + int (length (decimal (nat \<bar>sint (div10 v)\<bar>)))"
      using 1 False by simp
    with 1 ge show ?thesis
      by (subst jsonLenInt_loop.simps, subst length_decimal) (simp add: d)
  qed
qed

lemma jsonLenInt_digits: "jsonLenInt v = int (length (decimal_int (sint v)))"
proof (cases "v = 0")
  case True
  then show ?thesis by (simp add: jsonLenInt_def decimal_int_def length_decimal_0)
next
  case False
  then show ?thesis
    by (simp add: jsonLenInt_def decimal_int_def jsonLenInt_loop_digits abs_if)
qed

text \<open>
  The integer types that \<open>Length\<close> names, in its type switch and in \<open>jsonLenV\<close>, measure as
  the number of characters of their decimal representation, the minus sign of a negative
  value included; zero has length 1, and \<open>-123\<close> has length 4.
\<close>

lemma Length_integer_kinds:
  "Length (VInt v) = Some (int (length (decimal_int (sint v))), None)
   \<and> Length (VUint u) = Some (int (length (decimal (unat u))), None)
   \<and> Length (VOther None None None (RInt v)) = Some (int (length (decimal_int (sint v))), None)
   \<and> Length (VOther None None None (RUint u)) = Some (int (length (decimal (unat u))), None)
   \<and> Length (VInt 0) = Some (1, None) \<and> Length (VUint 0) = Some (1, None)
   \<and> Length (VInt (- 123)) = Some (4, None)"
proof -
  have "jsonLenInt (- 123) = 4"
    by (simp add: jsonLenInt_digits decimal_int_def decimal.simps)
  moreover have "jsonLenInt 0 = 1" "jsonLenUint 0 = 1"
    by (simp_all add: jsonLenInt_def jsonLenUint_def)
  ultimately show ?thesis
    by (simp add: jsonLenInt_digits jsonLenUint_digits)
qed

text \<open>
  Claim C7: for every signed or unsigned integer value, \<open>Length\<close> succeeds with the number
  of characters of its decimal representation. The code misses one integer type:
  \<open>uintptr\<close> is named neither in the type switch of \<open>Length\<close> nor, as \<open>reflect.Uintptr\<close>,
  beside \<open>reflect.Uint\<close> to \<open>reflect.Uint64\<close> in \<open>jsonLenV\<close>, so that \<open>uintptr(5)\<close> falls to
  the default branch and is refused as an unsupported type, where its decimal
  representation \<open>5\<close> has length 1.
\<close>

theorem Length_uintptr_unsupported:
  "Length (VOther None None None (RUintptr ''uintptr'' 5))
     = Some (0, Some (UnsupportedTypeError ''uintptr''))
   \<and> int (length (decimal (unat (5 :: uint64)))) = 1"
  by (simp add: decimal.simps)

section \<open>Byte slices\<close>

lemma sdiv_nonneg: "0 \<le> k \<Longrightarrow> 0 < l \<Longrightarrow> k sdiv l = k div l" for k l :: int
  by (cases "k = 0") (simp_all add: signed_divide_int_def)

lemma jsonLenBytes_floor: "jsonLenBytes b = 2 + \<lfloor>real (length b) * 4 / 3\<rfloor>"
proof -
  have "\<lfloor>real_of_int (int (length b) * 4) / real_of_int 3\<rfloor> = (int (length b) * 4) div 3"
    by (rule floor_divide_of_int_eq)
  then show ?thesis
    by (simp add: jsonLenBytes_def sdiv_nonneg)
qed

text \<open>
  Claim C8. For every byte slice \<open>b\<close>, met by the type switch or by reflection,
  \<open>Length\<close> succeeds with 2 for the quotes plus four thirds of the number of bytes,
  rounded down.
\<close>

theorem Length_bytes:
  "Length (VBytes b) = Some (2 + \<lfloor>real (length b) * 4 / 3\<rfloor>, None)
   \<and> Length (VOther None None None (RBytes b))
       = Some (2 + \<lfloor>real (length b) * 4 / 3\<rfloor>, None)"
  by (simp add: jsonLenBytes_floor)

section \<open>Order of dispatch\<close>

lemma find_resolution_order:
  "find (\<lambda>c. applies c v) resolution_order =
    Some (case v of
        VNil \<Rightarrow> Null
      | VBool _ \<Rightarrow> Primitive | VInt _ \<Rightarrow> Primitive | VUint _ \<Rightarrow> Primitive
      | VFloat _ \<Rightarrow> Primitive | VString _ \<Rightarrow> Primitive | VBytes _ \<Rightarrow> Primitive
      | VMapStringInterface _ \<Rightarrow> GenericContainer | VSliceInterface _ \<Rightarrow> GenericContainer
      | VNumber _ \<Rightarrow> NumberText
      | VOther (Some _) _ _ _ \<Rightarrow> OverrideLength
      | VOther None (Some _) _ _ \<Rightarrow> OwnJSON
      | VOther None None (Some _) _ \<Rightarrow> OwnText
      | VOther None None None _ \<Rightarrow> Introspection)"
  by (cases v rule: Length.cases(1))
    (simp_all add: resolution_order_def applies_def split: option.split)

text \<open>
  Claim C5. Of the categories a value satisfies, \<open>Length\<close> applies the rule of the one that
  comes first in the resolution order: null, the primitive shapes, the two generic
  containers, the override of the length, the numeric literal text, the value's own JSON
  encoding, its own text encoding, and introspection, which every value satisfies. A
  value that has both \<open>LengthJSON\<close> and \<open>MarshalJSON\<close> is measured by \<open>LengthJSON\<close>, whose
  result is passed on as it is. The order decides the result: the number text \<open>12\<close> has
  length 2 where introspection would find a string and count its quotes, \<open>nil\<close> has
  length 4 where introspection would fail, and the override wins over an encoding of
  another length.
\<close>

theorem Length_dispatch_order:
  "(\<exists>c. find (\<lambda>c. applies c v) resolution_order = Some c \<and> Length v = rule c v)
   \<and> Length (VOther (Some l) (Some m) textMarshaler r) = Some (sint l, None)
   \<and> applies OwnJSON (VOther (Some l) (Some m) textMarshaler r)
   \<and> Length (VNumber ''12'') = Some (2, None)
   \<and> rule Introspection (VNumber ''12'') = Some (4, None)
   \<and> Length VNil = Some (4, None)
   \<and> rule Introspection VNil = Some (0, Some UnsupportedValueError)
   \<and> Length (VOther (Some 7) (Some (''[1]'', None)) None (RSlice [RV True (VInt 1)]))
       = Some (7, None)
   \<and> rule OwnJSON (VOther (Some 7) (Some (''[1]'', None)) None (RSlice [RV True (VInt 1)]))
       = Some (3, None)"
proof -
  have "Length v = rule (the (find (\<lambda>c. applies c v) resolution_order)) v"
    unfolding find_resolution_order
    by (cases v rule: Length.cases(1))
      (simp_all add: rule_def jsonLenNull_def reflect_ValueOf_def split: option.split)
  moreover obtain c where "find (\<lambda>c. applies c v) resolution_order = Some c"
    using find_resolution_order [of v] by blast
  ultimately have first: "\<exists>c. find (\<lambda>c. applies c v) resolution_order = Some c \<and> Length v = rule c v"
    by simp
  have override: "Length (VOther (Some l) (Some m) textMarshaler r) = Some (sint l, None)"
    "applies OwnJSON (VOther (Some l) (Some m) textMarshaler r)"
    by (simp_all add: applies_def)
  have "jsonLenString ''12'' = 4"
    by code_simp
  then have number: "Length (VNumber ''12'') = Some (2, None)"
    "rule Introspection (VNumber ''12'') = Some (4, None)"
    by (simp_all add: rule_def reflect_ValueOf_def)
  have nil: "Length VNil = Some (4, None)"
    "rule Introspection VNil = Some (0, Some UnsupportedValueError)"
    by (simp_all add: rule_def reflect_ValueOf_def jsonLenNull_def)
  have both: "Length (VOther (Some 7) (Some (''[1]'', None)) None (RSlice [RV True (VInt 1)]))
       = Some (7, None)"
    "rule OwnJSON (VOther (Some 7) (Some (''[1]'', None)) None (RSlice [RV True (VInt 1)]))
       = Some (3, None)"
    by (simp_all add: rule_def)
  from first override number nil both show ?thesis
    by blast
qed

section \<open>Outcomes\<close>

lemma Length_cases:
  obtains (panics) "Length v = None"
  | (returns) c where "Length v = Some (c, None)"
  | (fails) c e where "Length v = Some (c, Some e)"
proof (cases "Length v")
  case None
  then show ?thesis by (rule panics)
next
  case (Some r)
  then show ?thesis
    by (cases r, rename_tac c x, case_tac x) (auto intro: returns fails)
qed

lemma succeeds_Length: "succeeds v \<longleftrightarrow> Length v = Some (length_of v, None)"
  by (cases v rule: Length_cases) (simp_all add: succeeds_def length_of_def)

lemma fails_with_Length: "fails_with v e \<longleftrightarrow> Length v = Some (length_of v, Some e)"
  by (cases v rule: Length_cases) (auto simp: fails_with_def length_of_def)

lemma succeeds_not_fails: "succeeds v \<Longrightarrow> \<not> fails_with v e"
  by (simp add: succeeds_Length fails_with_Length)

section \<open>Slices of interface values\<close>

lemma jsonLenSliceInterface_loop_ok:
  "\<forall>v\<in>set s. succeeds v \<Longrightarrow>
   jsonLenSliceInterface_loop (wrap64 a) s = Some (wrap64 (a + sum_list (map length_of s)), None)"
proof (induction s arbitrary: a)
  case Nil
  show ?case by simp
next
  case (Cons v s)
  have v: "Length v = Some (length_of v, None)"
    using Cons.prems by (simp add: succeeds_Length)
  have "jsonLenSliceInterface_loop (wrap64 (a + length_of v)) s
          = Some (wrap64 (a + length_of v + sum_list (map length_of s)), None)"
    using Cons.prems by (intro Cons.IH) simp
  with v show ?case
    by (simp add: wrap64_simps add.assoc)
qed

lemma jsonLenSliceInterface_loop_fail:
  "\<forall>u\<in>set pre. succeeds u \<Longrightarrow> fails_with v e \<Longrightarrow>
   jsonLenSliceInterface_loop (wrap64 a) (pre @ v # post)
     = Some (wrap64 (a + sum_list (map length_of pre)), Some e)"
proof (induction pre arbitrary: a)
  case Nil
  then show ?case by (simp add: fails_with_Length)
next
  case (Cons u pre)
  have u: "Length u = Some (length_of u, None)"
    using Cons.prems(1) by (simp add: succeeds_Length)
  have "jsonLenSliceInterface_loop (wrap64 (a + length_of u)) (pre @ v # post)
          = Some (wrap64 (a + length_of u + sum_list (map length_of pre)), Some e)"
    using Cons.prems by (intro Cons.IH) simp_all
  with u show ?case
    by (simp add: wrap64_simps add.assoc)
qed

lemma jsonLenSliceInterface_loop_succeeds_iff:
  "(\<exists>t. jsonLenSliceInterface_loop n s = Some (t, None)) \<longleftrightarrow> (\<forall>v\<in>set s. succeeds v)"
proof (induction s arbitrary: n)
  case Nil
  show ?case by simp
next
  case (Cons v s)
  show ?case
    by (cases v rule: Length_cases) (simp_all add: Cons.IH succeeds_def)
qed

lemma framed_wrap64:
  "add64 (if 1 < int (length xs) then add64 (wrap64 t) (sub64 (int (length xs)) 1)
          else wrap64 t) 2
   = wrap64 (2 + t + (if 1 < length xs then int (length xs) - 1 else 0))"
proof (cases "1 < length xs")
  case True
  have "add64 (add64 (wrap64 t) (sub64 (int (length xs)) 1)) 2
      = wrap64 (t + (int (length xs) - 1) + 2)"
    by (simp only: wrap64_simps)
  also have "t + (int (length xs) - 1) + 2 = 2 + t + (int (length xs) - 1)"
    by simp
  finally show ?thesis
    using True by simp
next
  case False
  have "add64 (wrap64 t) 2 = wrap64 (t + 2)"
    by (simp only: wrap64_simps)
  also have "t + 2 = 2 + t + 0"
    by simp
  finally show ?thesis
    using False by simp
qed

lemma jsonLenSliceInterface_ok:
  assumes "\<forall>v\<in>set s. succeeds v"
  shows "jsonLenSliceInterface s = Some (wrap64 (framed_total (map length_of s)), None)"
proof -
  have "jsonLenSliceInterface_loop 0 s = Some (wrap64 (sum_list (map length_of s)), None)"
    using jsonLenSliceInterface_loop_ok [OF assms, of 0] by (simp add: wrap64_0)
  then show ?thesis
    using framed_wrap64 [of s "sum_list (map length_of s)"]
    by (simp add: framed_total_def Let_def)
qed

lemma jsonLenSliceInterface_fail:
  assumes "\<forall>u\<in>set pre. succeeds u" and "fails_with v e"
  shows "jsonLenSliceInterface (pre @ v # post)
     = Some (wrap64 (sum_list (map length_of pre)), Some e)"
  using jsonLenSliceInterface_loop_fail [OF assms, of 0 post] by (simp add: wrap64_0)

lemma succeeds_VSliceInterface:
  "succeeds (VSliceInterface s) \<longleftrightarrow> (\<forall>v\<in>set s. succeeds v)"
proof -
  have "succeeds (VSliceInterface s) \<longleftrightarrow> (\<exists>t. jsonLenSliceInterface_loop 0 s = Some (t, None))"
    by (cases "jsonLenSliceInterface_loop 0 s" rule: option.exhaust [case_names None Some];
        auto simp: succeeds_def Let_def split: prod.split option.split)
  then show ?thesis
    by (simp add: jsonLenSliceInterface_loop_succeeds_iff)
qed

section \<open>Text-keyed maps\<close>

lemma entry_contribution_pair:
  "entry_contribution (k, v) = jsonLenString k + 1 + length_of v"
  by (simp add: entry_contribution_def)

lemma jsonLenMapStringInterface_loop_ok:
  "\<forall>p\<in>set m. succeeds (snd p) \<Longrightarrow>
   jsonLenMapStringInterface_loop (wrap64 a) m
     = Some (wrap64 (a + sum_list (map entry_contribution m)), None)"
proof (induction m arbitrary: a)
  case Nil
  show ?case by simp
next
  case (Cons p m)
  obtain k v where p: "p = (k, v)" by (cases p)
  have v: "Length v = Some (length_of v, None)"
    using Cons.prems by (simp add: p succeeds_Length)
  have "jsonLenMapStringInterface_loop (wrap64 (a + entry_contribution p)) m
          = Some (wrap64 (a + entry_contribution p + sum_list (map entry_contribution m)), None)"
    using Cons.prems by (intro Cons.IH) simp
  with v show ?case
    by (simp add: p add64_contribution entry_contribution_pair add.assoc)
qed

lemma jsonLenMapStringInterface_loop_fail:
  "\<forall>p\<in>set pre. succeeds (snd p) \<Longrightarrow> fails_with v e \<Longrightarrow>
   jsonLenMapStringInterface_loop (wrap64 a) (pre @ (k, v) # post)
     = Some (wrap64 (a + sum_list (map entry_contribution pre)), Some e)"
proof (induction pre arbitrary: a)
  case Nil
  then show ?case by (simp add: fails_with_Length)
next
  case (Cons p pre)
  obtain k' u where p: "p = (k', u)" by (cases p)
  have u: "Length u = Some (length_of u, None)"
    using Cons.prems(1) by (simp add: p succeeds_Length)
  have "jsonLenMapStringInterface_loop (wrap64 (a + entry_contribution p)) (pre @ (k, v) # post)
          = Some (wrap64 (a + entry_contribution p + sum_list (map entry_contribution pre)), Some e)"
    using Cons.prems by (intro Cons.IH) simp_all
  with u show ?case
    by (simp add: p add64_contribution entry_contribution_pair add.assoc)
qed

lemma jsonLenMapStringInterface_loop_succeeds_iff:
  "(\<exists>t. jsonLenMapStringInterface_loop n m = Some (t, None))
     \<longleftrightarrow> (\<forall>p\<in>set m. succeeds (snd p))"
proof (induction m arbitrary: n)
  case Nil
  show ?case by simp
next
  case (Cons p m)
  obtain k v where p: "p = (k, v)" by (cases p)
  show ?case
    unfolding p by (cases v rule: Length_cases) (simp_all add: Cons.IH succeeds_def)
qed

lemma jsonLenMapStringInterface_ok:
  assumes "\<forall>p\<in>set m. succeeds (snd p)"
  shows "jsonLenMapStringInterface m
    = Some (wrap64 (framed_total (map entry_contribution m)), None)"
proof -
  have "jsonLenMapStringInterface_loop 0 m
      = Some (wrap64 (sum_list (map entry_contribution m)), None)"
    using jsonLenMapStringInterface_loop_ok [OF assms, of 0] by (simp add: wrap64_0)
  then show ?thesis
    using framed_wrap64 [of m "sum_list (map entry_contribution m)"]
    by (simp add: framed_total_def Let_def)
qed

lemma jsonLenMapStringInterface_fail:
  assumes "\<forall>p\<in>set pre. succeeds (snd p)" and "fails_with v e"
  shows "jsonLenMapStringInterface (pre @ (k, v) # post)
     = Some (wrap64 (sum_list (map entry_contribution pre)), Some e)"
  using jsonLenMapStringInterface_loop_fail [OF assms, of 0 k post] by (simp add: wrap64_0)

lemma succeeds_VMapStringInterface:
  "succeeds (VMapStringInterface m) \<longleftrightarrow> (\<forall>p\<in>set m. succeeds (snd p))"
proof -
  have "succeeds (VMapStringInterface m)
      \<longleftrightarrow> (\<exists>t. jsonLenMapStringInterface_loop 0 m = Some (t, None))"
    by (cases "jsonLenMapStringInterface_loop 0 m" rule: option.exhaust [case_names None Some];
        auto simp: succeeds_def Let_def split: prod.split option.split)
  then show ?thesis
    by (simp add: jsonLenMapStringInterface_loop_succeeds_iff)
qed

section \<open>Reflected slices and arrays\<close>

lemma elem_succeeds_RV: "elem_succeeds (RV can x) \<longleftrightarrow> can \<and> succeeds x"
  by (simp add: elem_succeeds_def)

lemma jsonLenArray_loop_Cons_ok:
  assumes "elem_succeeds h"
  shows "jsonLenArray_loop i (wrap64 a) (h # es)
    = jsonLenArray_loop (i + 1) (wrap64 (a + (if i = 0 then 0 else 1) + elem_length h)) es"
proof -
  obtain x where h: "h = RV True x"
    using assms by (cases h) (auto simp: elem_succeeds_def)
  have x: "Length x = Some (length_of x, None)"
    using assms by (simp add: h elem_succeeds_def succeeds_Length)
  have "jsonLenArray_loop i (wrap64 a) (h # es)
    = jsonLenArray_loop (i + 1)
        (add64 (wrap64 (a + (if i = 0 then 0 else 1))) (length_of x)) es"
    unfolding h jsonLenArray_loop.simps Let_def separator_wrap64 by (simp add: x)
  then show ?thesis
    by (simp only: add64_wrap64_left elem_length_def h rv.sel)
qed

lemma jsonLenArray_loop_Cons_fail:
  assumes "elem_fails_with h e"
  shows "jsonLenArray_loop i (wrap64 a) (h # es)
    = Some (wrap64 (a + (if i = 0 then 0 else 1)), Some e)"
proof (cases h)
  case (RV can x)
  show ?thesis
  proof (cases can)
    case True
    then have "Length x = Some (length_of x, Some e)"
      using assms by (simp add: RV elem_fails_with_def fails_with_Length)
    with True show ?thesis
      unfolding RV jsonLenArray_loop.simps Let_def separator_wrap64 by simp
  next
    case False
    then have "e = InterfaceError"
      using assms by (simp add: RV elem_fails_with_def)
    with False show ?thesis
      unfolding RV jsonLenArray_loop.simps Let_def separator_wrap64 by simp
  qed
qed

lemma jsonLenArray_loop_ok:
  "\<forall>h\<in>set es. elem_succeeds h \<Longrightarrow>
   jsonLenArray_loop i (wrap64 a) es =
     Some (wrap64 (a + sum_list (map elem_length es) + int (length es)
        - (if i = 0 \<and> es \<noteq> [] then 1 else 0) + 2), None)"
proof (induction es arbitrary: i a)
  case Nil
  have "jsonLenArray_loop i (wrap64 a) [] = Some (wrap64 (a + 2), None)"
    by (simp add: add64_wrap64_left)
  also have "a + 2 = a + sum_list (map elem_length []) + int (length ([] :: rv list))
        - (if i = 0 \<and> ([] :: rv list) \<noteq> [] then 1 else 0) + 2"
    by simp
  finally show ?case .
next
  case (Cons h es)
  have h: "elem_succeeds h" and es: "\<forall>h\<in>set es. elem_succeeds h"
    using Cons.prems by simp_all
  have "jsonLenArray_loop i (wrap64 a) (h # es)
      = jsonLenArray_loop (i + 1) (wrap64 (a + (if i = 0 then 0 else 1) + elem_length h)) es"
    using h by (rule jsonLenArray_loop_Cons_ok)
  also have "\<dots> = Some (wrap64 (a + (if i = 0 then 0 else 1) + elem_length h
        + sum_list (map elem_length es) + int (length es)
        - (if i + 1 = 0 \<and> es \<noteq> [] then 1 else 0) + 2), None)"
    using es by (rule Cons.IH)
  also have "a + (if i = 0 then 0 else 1) + elem_length h
        + sum_list (map elem_length es) + int (length es)
        - (if i + 1 = 0 \<and> es \<noteq> [] then 1 else 0) + 2
      = a + sum_list (map elem_length (h # es)) + int (length (h # es))
        - (if i = 0 \<and> h # es \<noteq> [] then 1 else 0) + 2"
    by simp
  finally show ?case .
qed

lemma jsonLenArray_loop_fail:
  "\<forall>g\<in>set pre. elem_succeeds g \<Longrightarrow> elem_fails_with h e \<Longrightarrow>
   jsonLenArray_loop i (wrap64 a) (pre @ h # post) =
     Some (wrap64 (a + sum_list (map elem_length pre) + int (length pre)
        + (if i = 0 then 0 else 1)), Some e)"
proof (induction pre arbitrary: i a)
  case Nil
  have "jsonLenArray_loop i (wrap64 a) ([] @ h # post)
      = Some (wrap64 (a + (if i = 0 then 0 else 1)), Some e)"
    using jsonLenArray_loop_Cons_fail [OF Nil.prems(2)] by simp
  also have "a + (if i = 0 then 0 else 1)
      = a + sum_list (map elem_length []) + int (length ([] :: rv list))
        + (if i = 0 then 0 else 1)"
    by simp
  finally show ?case .
next
  case (Cons g pre)
  have g: "elem_succeeds g" and pre: "\<forall>g\<in>set pre. elem_succeeds g"
    using Cons.prems(1) by simp_all
  have "jsonLenArray_loop i (wrap64 a) ((g # pre) @ h # post)
      = jsonLenArray_loop (i + 1) (wrap64 (a + (if i = 0 then 0 else 1) + elem_length g))
          (pre @ h # post)"
    using jsonLenArray_loop_Cons_ok [OF g] by simp
  also have "\<dots> = Some (wrap64 (a + (if i = 0 then 0 else 1) + elem_length g
        + sum_list (map elem_length pre) + int (length pre)
        + (if i + 1 = 0 then 0 else 1)), Some e)"
    using pre Cons.prems(2) by (rule Cons.IH)
  also have "a + (if i = 0 then 0 else 1) + elem_length g
        + sum_list (map elem_length pre) + int (length pre) + (if i + 1 = 0 then 0 else 1)
      = a + sum_list (map elem_length (g # pre)) + int (length (g # pre))
        + (if i = 0 then 0 else 1)"
    by simp
  finally show ?case .
qed

lemma jsonLenArray_loop_succeeds_iff:
  "(\<exists>t. jsonLenArray_loop i n es = Some (t, None)) \<longleftrightarrow> (\<forall>h\<in>set es. elem_succeeds h)"
proof (induction es arbitrary: i n)
  case Nil
  show ?case by simp
next
  case (Cons h es)
  obtain can x where h: "h = RV can x" by (cases h)
  show ?case
    unfolding h
    by (cases x rule: Length_cases)
      (simp_all add: Cons.IH elem_succeeds_RV succeeds_def Let_def)
qed

lemma jsonLenArray_ok:
  assumes "\<forall>h\<in>set es. elem_succeeds h"
  shows "jsonLenArray es = Some (wrap64 (framed_total (map elem_length es)), None)"
proof -
  have "jsonLenArray es = jsonLenArray_loop 0 (wrap64 0) es"
    by (simp add: wrap64_0)
  also have "\<dots> = Some (wrap64 (0 + sum_list (map elem_length es) + int (length es)
        - (if (0 :: nat) = 0 \<and> es \<noteq> [] then 1 else 0) + 2), None)"
    using assms by (rule jsonLenArray_loop_ok)
  also have "0 + sum_list (map elem_length es) + int (length es)
        - (if (0 :: nat) = 0 \<and> es \<noteq> [] then 1 else 0) + 2
      = framed_total (map elem_length es)"
    by (cases es) (simp_all add: framed_total_def)
  finally show ?thesis .
qed

lemma jsonLenArray_fail:
  assumes "\<forall>g\<in>set pre. elem_succeeds g" and "elem_fails_with h e"
  shows "jsonLenArray (pre @ h # post)
    = Some (wrap64 (sum_list (map elem_length pre) + int (length pre)), Some e)"
proof -
  have "jsonLenArray (pre @ h # post) = jsonLenArray_loop 0 (wrap64 0) (pre @ h # post)"
    by (simp add: wrap64_0)
  also have "\<dots> = Some (wrap64 (0 + sum_list (map elem_length pre) + int (length pre)
        + (if (0 :: nat) = 0 then 0 else 1)), Some e)"
    using assms by (rule jsonLenArray_loop_fail)
  also have "0 + sum_list (map elem_length pre) + int (length pre)
        + (if (0 :: nat) = 0 then 0 else 1)
      = sum_list (map elem_length pre) + int (length pre)"
    by simp
  finally show ?thesis .
qed

lemma jsonLenArray_succeeds_iff:
  "(\<exists>t. jsonLenArray es = Some (t, None)) \<longleftrightarrow> (\<forall>h\<in>set es. elem_succeeds h)"
  by (simp add: jsonLenArray_loop_succeeds_iff)

section \<open>Reflected maps\<close>

lemma rentry_contribution_pair:
  "rentry_contribution (h, Some x) = elem_length h + 1 + length_of x"
  by (simp add: rentry_contribution_def)

lemma rentry_succeeds_cases:
  assumes "rentry_succeeds p"
  obtains k x where "p = (RV True k, Some x)" "succeeds k" "succeeds x"
proof -
  obtain h found where p: "p = (h, found)" by (cases p)
  obtain can k where h: "h = RV can k" by (cases h)
  from assms obtain x where "found = Some x" "succeeds x" "can" "succeeds k"
    by (cases found) (auto simp: p h rentry_succeeds_def elem_succeeds_def)
  with p h that show ?thesis by simp
qed

lemma jsonLenMap_loop_Cons_ok:
  assumes "rentry_succeeds p"
  shows "jsonLenMap_loop i (wrap64 a) (p # m)
    = jsonLenMap_loop (i + 1) (wrap64 (a + (if i = 0 then 0 else 1) + rentry_contribution p)) m"
proof -
  from assms obtain k x where p: "p = (RV True k, Some x)" and "succeeds k" "succeeds x"
    by (rule rentry_succeeds_cases)
  then have kx: "Length k = Some (length_of k, None)" "Length x = Some (length_of x, None)"
    by (simp_all add: succeeds_Length)
  have "jsonLenMap_loop i (wrap64 a) (p # m)
    = jsonLenMap_loop (i + 1)
        (add64 (wrap64 (a + (if i = 0 then 0 else 1)))
          (add64 (add64 (length_of k) (length_of x)) 1)) m"
    unfolding p jsonLenMap_loop.simps Let_def separator_wrap64 by (simp add: kx)
  also have "add64 (wrap64 (a + (if i = 0 then 0 else 1)))
          (add64 (add64 (length_of k) (length_of x)) 1)
      = wrap64 (a + (if i = 0 then 0 else 1) + (length_of k + 1 + length_of x))"
    by (rule add64_contribution)
  finally show ?thesis
    by (simp only: p rentry_contribution_pair elem_length_def rv.sel)
qed

lemma jsonLenMap_loop_Cons_fail:
  assumes "rentry_fails_with p e"
  shows "jsonLenMap_loop i (wrap64 a) (p # m)
    = Some (wrap64 (a + (if i = 0 \<or> \<not> CanInterface (fst p) then 0 else 1)), Some e)"
proof -
  obtain can k found where p: "p = (RV can k, found)"
    by (cases p, rename_tac h f, case_tac h) auto
  show ?thesis
  proof (cases can)
    case False
    then have "e = InterfaceError"
      using assms by (simp add: p rentry_fails_with_def elem_succeeds_def elem_fails_with_def)
    with False show ?thesis
      unfolding p jsonLenMap_loop.simps Let_def separator_wrap64 by simp
  next
    case True
    show ?thesis
    proof (cases "succeeds k")
      case False
      then have "Length k = Some (length_of k, Some e)"
        using assms True
        by (simp add: p rentry_fails_with_def elem_succeeds_def elem_fails_with_def
            fails_with_Length)
      with True show ?thesis
        unfolding p jsonLenMap_loop.simps Let_def separator_wrap64 by simp
    next
      case k: True
      then obtain x where "found = Some x" "Length x = Some (length_of x, Some e)"
        using assms True
        by (cases found)
          (auto simp: p rentry_fails_with_def elem_succeeds_def fails_with_Length)
      moreover have "Length k = Some (length_of k, None)"
        using k by (simp add: succeeds_Length)
      ultimately show ?thesis
        using True
        unfolding p jsonLenMap_loop.simps Let_def separator_wrap64 by simp
    qed
  qed
qed

lemma jsonLenMap_loop_ok:
  "\<forall>p\<in>set m. rentry_succeeds p \<Longrightarrow>
   jsonLenMap_loop i (wrap64 a) m =
     Some (wrap64 (a + sum_list (map rentry_contribution m) + int (length m)
        - (if i = 0 \<and> m \<noteq> [] then 1 else 0) + 2), None)"
proof (induction m arbitrary: i a)
  case Nil
  have "jsonLenMap_loop i (wrap64 a) [] = Some (wrap64 (a + 2), None)"
    by (simp add: add64_wrap64_left)
  also have "a + 2 = a + sum_list (map rentry_contribution [])
        + int (length ([] :: (rv \<times> value option) list))
        - (if i = 0 \<and> ([] :: (rv \<times> value option) list) \<noteq> [] then 1 else 0) + 2"
    by simp
  finally show ?case .
next
  case (Cons p m)
  have p: "rentry_succeeds p" and m: "\<forall>p\<in>set m. rentry_succeeds p"
    using Cons.prems by simp_all
  have "jsonLenMap_loop i (wrap64 a) (p # m)
      = jsonLenMap_loop (i + 1)
          (wrap64 (a + (if i = 0 then 0 else 1) + rentry_contribution p)) m"
    using p by (rule jsonLenMap_loop_Cons_ok)
  also have "\<dots> = Some (wrap64 (a + (if i = 0 then 0 else 1) + rentry_contribution p
        + sum_list (map rentry_contribution m) + int (length m)
        - (if i + 1 = 0 \<and> m \<noteq> [] then 1 else 0) + 2), None)"
    using m by (rule Cons.IH)
  also have "a + (if i = 0 then 0 else 1) + rentry_contribution p
        + sum_list (map rentry_contribution m) + int (length m)
        - (if i + 1 = 0 \<and> m \<noteq> [] then 1 else 0) + 2
      = a + sum_list (map rentry_contribution (p # m)) + int (length (p # m))
        - (if i = 0 \<and> p # m \<noteq> [] then 1 else 0) + 2"
    by simp
  finally show ?case .
qed

lemma jsonLenMap_loop_fail:
  "\<forall>q\<in>set pre. rentry_succeeds q \<Longrightarrow> rentry_fails_with p e \<Longrightarrow>
   jsonLenMap_loop i (wrap64 a) (pre @ p # post) =
     Some (wrap64 (a + sum_list (map rentry_contribution pre) + int (length pre)
        - (if i = 0 \<and> pre \<noteq> [] then 1 else 0)
        + (if (i = 0 \<and> pre = []) \<or> \<not> CanInterface (fst p) then 0 else 1)), Some e)"
proof (induction pre arbitrary: i a)
  case Nil
  have "jsonLenMap_loop i (wrap64 a) ([] @ p # post)
      = Some (wrap64 (a + (if i = 0 \<or> \<not> CanInterface (fst p) then 0 else 1)), Some e)"
    using jsonLenMap_loop_Cons_fail [OF Nil.prems(2)] by simp
  also have "a + (if i = 0 \<or> \<not> CanInterface (fst p) then 0 else 1)
      = a + sum_list (map rentry_contribution [])
        + int (length ([] :: (rv \<times> value option) list))
        - (if i = 0 \<and> ([] :: (rv \<times> value option) list) \<noteq> [] then 1 else 0)
        + (if (i = 0 \<and> ([] :: (rv \<times> value option) list) = []) \<or> \<not> CanInterface (fst p)
           then 0 else 1)"
    by simp
  finally show ?case .
next
  case (Cons q pre)
  have q: "rentry_succeeds q" and pre: "\<forall>q\<in>set pre. rentry_succeeds q"
    using Cons.prems(1) by simp_all
  have "jsonLenMap_loop i (wrap64 a) ((q # pre) @ p # post)
      = jsonLenMap_loop (i + 1)
          (wrap64 (a + (if i = 0 then 0 else 1) + rentry_contribution q)) (pre @ p # post)"
    using jsonLenMap_loop_Cons_ok [OF q] by simp
  also have "\<dots> = Some (wrap64 (a + (if i = 0 then 0 else 1) + rentry_contribution q
        + sum_list (map rentry_contribution pre) + int (length pre)
        - (if i + 1 = 0 \<and> pre \<noteq> [] then 1 else 0)
        + (if (i + 1 = 0 \<and> pre = []) \<or> \<not> CanInterface (fst p) then 0 else 1)), Some e)"
    using pre Cons.prems(2) by (rule Cons.IH)
  also have "a + (if i = 0 then 0 else 1) + rentry_contribution q
        + sum_list (map rentry_contribution pre) + int (length pre)
        - (if i + 1 = 0 \<and> pre \<noteq> [] then 1 else 0)
        + (if (i + 1 = 0 \<and> pre = []) \<or> \<not> CanInterface (fst p) then 0 else 1)
      = a + sum_list (map rentry_contribution (q # pre)) + int (length (q # pre))
        - (if i = 0 \<and> q # pre \<noteq> [] then 1 else 0)
        + (if (i = 0 \<and> q # pre = []) \<or> \<not> CanInterface (fst p) then 0 else 1)"
    by simp
  finally show ?case .
qed

lemma jsonLenMap_loop_succeeds_iff:
  "(\<exists>t. jsonLenMap_loop i n m = Some (t, None)) \<longleftrightarrow> (\<forall>p\<in>set m. rentry_succeeds p)"
proof (induction m arbitrary: i n)
  case Nil
  show ?case by simp
next
  case (Cons p m)
  obtain can k found where p: "p = (RV can k, found)"
    by (cases p, rename_tac h f, case_tac h) auto
  show ?case
  proof (cases found)
    case None
    then show ?thesis
      unfolding p
      by (cases k rule: Length_cases)
        (simp_all add: rentry_succeeds_def elem_succeeds_def succeeds_def Let_def)
  next
    case (Some x)
    then show ?thesis
      unfolding p
      by (cases k rule: Length_cases; cases x rule: Length_cases)
        (simp_all add: Cons.IH rentry_succeeds_def elem_succeeds_def succeeds_def Let_def)
  qed
qed

lemma jsonLenMap_ok:
  assumes "\<forall>p\<in>set m. rentry_succeeds p"
  shows "jsonLenMap m = Some (wrap64 (framed_total (map rentry_contribution m)), None)"
proof -
  have "jsonLenMap m = jsonLenMap_loop 0 (wrap64 0) m"
    by (simp add: wrap64_0)
  also have "\<dots> = Some (wrap64 (0 + sum_list (map rentry_contribution m) + int (length m)
        - (if (0 :: nat) = 0 \<and> m \<noteq> [] then 1 else 0) + 2), None)"
    using assms by (rule jsonLenMap_loop_ok)
  also have "0 + sum_list (map rentry_contribution m) + int (length m)
        - (if (0 :: nat) = 0 \<and> m \<noteq> [] then 1 else 0) + 2
      = framed_total (map rentry_contribution m)"
    by (cases m) (simp_all add: framed_total_def)
  finally show ?thesis .
qed

lemma jsonLenMap_fail:
  assumes "\<forall>q\<in>set pre. rentry_succeeds q" and "rentry_fails_with p e"
  shows "jsonLenMap (pre @ p # post)
    = Some (wrap64 (sum_list (map rentry_contribution pre) + int (length pre)
        - (if pre \<noteq> [] \<and> \<not> CanInterface (fst p) then 1 else 0)), Some e)"
proof -
  have "jsonLenMap (pre @ p # post) = jsonLenMap_loop 0 (wrap64 0) (pre @ p # post)"
    by (simp add: wrap64_0)
  also have "\<dots> = Some (wrap64 (0 + sum_list (map rentry_contribution pre) + int (length pre)
        - (if (0 :: nat) = 0 \<and> pre \<noteq> [] then 1 else 0)
        + (if ((0 :: nat) = 0 \<and> pre = []) \<or> \<not> CanInterface (fst p) then 0 else 1)), Some e)"
    using assms by (rule jsonLenMap_loop_fail)
  also have "0 + sum_list (map rentry_contribution pre) + int (length pre)
        - (if (0 :: nat) = 0 \<and> pre \<noteq> [] then 1 else 0)
        + (if ((0 :: nat) = 0 \<and> pre = []) \<or> \<not> CanInterface (fst p) then 0 else 1)
      = sum_list (map rentry_contribution pre) + int (length pre)
        - (if pre \<noteq> [] \<and> \<not> CanInterface (fst p) then 1 else 0)"
    by simp
  finally show ?thesis .
qed

lemma jsonLenMap_succeeds_iff:
  "(\<exists>t. jsonLenMap m = Some (t, None)) \<longleftrightarrow> (\<forall>p\<in>set m. rentry_succeeds p)"
  by (simp add: jsonLenMap_loop_succeeds_iff)

section \<open>Records\<close>

lemma field_cases:
  obtains name omitempty isEmpty can x where "f = Field name omitempty isEmpty (RV can x)"
  by (cases f, rename_tac a b c h, case_tac h) auto

lemma jsonLenStruct_loop_Cons_omitted:
  "omitted f \<Longrightarrow> jsonLenStruct_loop n (f # fs) = jsonLenStruct_loop n fs"
  by (cases f rule: field_cases) (simp add: omitted_def)

lemma jsonLenStruct_loop_Cons_fail:
  assumes "\<not> omitted f" and "elem_fails_with (fv f) e"
  shows "jsonLenStruct_loop n (f # fs) = Some (n, Some e)"
proof (cases f rule: field_cases)
  case (1 name omitempty isEmpty can x)
  have no: "\<not> (omitempty \<and> isEmpty)"
    using assms(1) by (simp add: 1 omitted_def)
  show ?thesis
  proof (cases can)
    case True
    then have "Length x = Some (length_of x, Some e)"
      using assms(2) by (simp add: 1 elem_fails_with_def fails_with_Length)
    with True no show ?thesis
      by (auto simp: 1)
  next
    case False
    then have "e = InterfaceError"
      using assms(2) by (simp add: 1 elem_fails_with_def)
    with False no show ?thesis
      by (auto simp: 1)
  qed
qed

lemma jsonLenStruct_loop_Cons_ok:
  assumes "\<not> omitted f" and "elem_succeeds (fv f)"
  shows "\<exists>n'. in_int64 n' \<and> (\<forall>fs. jsonLenStruct_loop n (f # fs) = jsonLenStruct_loop n' fs)"
proof (cases f rule: field_cases)
  case (1 name omitempty isEmpty can x)
  have no: "\<not> (omitempty \<and> isEmpty)"
    using assms(1) by (simp add: 1 omitted_def)
  have x: "can" "Length x = Some (length_of x, None)"
    using assms(2) by (simp_all add: 1 elem_succeeds_def succeeds_Length)
  have "\<forall>fs. jsonLenStruct_loop n (f # fs)
      = jsonLenStruct_loop
          (wrap64 ((if n \<noteq> 0 then add64 n 1 else n)
             + add64 (add64 (jsonLenString name) (length_of x)) 1)) fs"
    using no x by (auto simp: 1 Let_def add64_def)
  then show ?thesis
    using in_int64_wrap64 by blast
qed

lemma jsonLenStruct_loop_Cons_succeeds:
  assumes "\<not> omitted f" and "jsonLenStruct_loop n (f # fs) = Some (t, None)"
  shows "elem_succeeds (fv f)"
proof (cases f rule: field_cases)
  case (1 name omitempty isEmpty can x)
  have no: "\<not> (omitempty \<and> isEmpty)"
    using assms(1) by (simp add: 1 omitted_def)
  show ?thesis
    using assms(2) no
    by (cases x rule: Length_cases)
      (auto simp: 1 elem_succeeds_def succeeds_def split: if_splits)
qed

lemma wrap64_add_2_diff_2: "in_int64 n \<Longrightarrow> wrap64 (add64 n 2 - 2) = n"
proof -
  assume n: "in_int64 n"
  have "wrap64 (add64 n 2 - 2) = wrap64 n"
    unfolding add64_def by (rule wrap64_eqI) (simp add: word_of_int_wrap64)
  with n show ?thesis
    by (simp add: wrap64_in_int64)
qed

lemma jsonLenStruct_loop_fail:
  "jsonLenStruct_loop n pre = Some (t, None) \<Longrightarrow> in_int64 n \<Longrightarrow>
   \<not> omitted f \<Longrightarrow> elem_fails_with (fv f) e \<Longrightarrow>
   jsonLenStruct_loop n (pre @ f # post) = Some (wrap64 (t - 2), Some e)"
proof (induction pre arbitrary: n)
  case Nil
  then have "t = add64 n 2"
    by simp
  then show ?case
    using Nil.prems by (simp add: jsonLenStruct_loop_Cons_fail wrap64_add_2_diff_2
        del: jsonLenStruct_loop.simps)
next
  case (Cons g pre)
  show ?case
  proof (cases "omitted g")
    case True
    then show ?thesis
      using Cons.prems Cons.IH [of n]
      by (simp add: jsonLenStruct_loop_Cons_omitted del: jsonLenStruct_loop.simps)
  next
    case False
    then have "elem_succeeds (fv g)"
      using Cons.prems(1) by (rule jsonLenStruct_loop_Cons_succeeds)
    with False obtain n' where n': "in_int64 n'"
      "\<And>fs. jsonLenStruct_loop n (g # fs) = jsonLenStruct_loop n' fs"
      using jsonLenStruct_loop_Cons_ok [of g n] by blast
    then show ?thesis
      using Cons.prems Cons.IH [of n']
      by (simp del: jsonLenStruct_loop.simps)
  qed
qed

lemma jsonLenStruct_loop_succeeds_iff:
  "in_int64 n \<Longrightarrow> (\<exists>t. jsonLenStruct_loop n fs = Some (t, None))
     \<longleftrightarrow> (\<forall>f\<in>set fs. omitted f \<or> elem_succeeds (fv f))"
proof (induction fs arbitrary: n)
  case Nil
  show ?case by simp
next
  case (Cons f fs)
  show ?case
  proof (cases "omitted f")
    case True
    then show ?thesis
      using Cons.IH [OF Cons.prems]
      by (simp add: jsonLenStruct_loop_Cons_omitted del: jsonLenStruct_loop.simps)
  next
    case False
    show ?thesis
    proof (cases "elem_succeeds (fv f)")
      case True
      with False obtain n' where n': "in_int64 n'"
        "\<And>fs. jsonLenStruct_loop n (f # fs) = jsonLenStruct_loop n' fs"
        using jsonLenStruct_loop_Cons_ok [of f n] by blast
      show ?thesis
        using True Cons.IH [OF n'(1)] by (simp add: n'(2) del: jsonLenStruct_loop.simps)
    next
      case no: False
      have "\<not> (\<exists>t. jsonLenStruct_loop n (f # fs) = Some (t, None))"
        using False no jsonLenStruct_loop_Cons_succeeds by blast
      with False no show ?thesis
        by simp
    qed
  qed
qed

lemma in_int64_0: "in_int64 0"
  by (simp add: in_int64_def)

lemma jsonLenStruct_succeeds_iff:
  "(\<exists>t. jsonLenStruct fs = Some (t, None))
     \<longleftrightarrow> (\<forall>f\<in>set fs. omitted f \<or> elem_succeeds (fv f))"
  using jsonLenStruct_loop_succeeds_iff [OF in_int64_0, of fs] by simp

lemma jsonLenStruct_loop_emitted:
  "jsonLenStruct_loop n (pre @ f # post) = jsonLenStruct_loop n (pre @ post)" if "omitted f"
  using that
proof (induction pre arbitrary: n)
  case Nil
  then show ?case
    by (simp add: jsonLenStruct_loop_Cons_omitted del: jsonLenStruct_loop.simps)
next
  case (Cons g pre)
  obtain name omitempty isEmpty can x where g: "g = Field name omitempty isEmpty (RV can x)"
    by (rule field_cases)
  show ?case
    using Cons.IH [OF Cons.prems]
    by (cases x rule: Length_cases) (simp_all add: g Let_def)
qed

lemma jsonLenStruct_fail:
  assumes "jsonLenStruct pre = Some (t, None)" and "\<not> omitted f"
    and "elem_fails_with (fv f) e"
  shows "jsonLenStruct (pre @ f # post) = Some (wrap64 (t - 2), Some e)"
  using jsonLenStruct_loop_fail [of 0 pre t f e post] assms by (simp add: in_int64_0)

lemma succeeds_result: "succeeds v \<longleftrightarrow> (\<exists>t. Length v = Some (t, None))"
  by (cases v rule: Length_cases) (simp_all add: succeeds_def)

lemma succeeds_RSlice:
  "succeeds (VOther None None None (RSlice es)) \<longleftrightarrow> (\<forall>h\<in>set es. elem_succeeds h)"
  unfolding succeeds_result using jsonLenArray_succeeds_iff [of es] by simp

lemma succeeds_RArray:
  "succeeds (VOther None None None (RArray es)) \<longleftrightarrow> (\<forall>h\<in>set es. elem_succeeds h)"
  unfolding succeeds_result using jsonLenArray_succeeds_iff [of es] by simp

lemma succeeds_RMap:
  "succeeds (VOther None None None (RMap m)) \<longleftrightarrow> (\<forall>p\<in>set m. rentry_succeeds p)"
  unfolding succeeds_result using jsonLenMap_succeeds_iff [of m] by simp

lemma succeeds_RStruct:
  "succeeds (VOther None None None (RStruct fs))
     \<longleftrightarrow> (\<forall>f\<in>set fs. omitted f \<or> elem_succeeds (fv f))"
  unfolding succeeds_result using jsonLenStruct_succeeds_iff [of fs] by simp

section \<open>Totals of sequences\<close>

lemma length_of_RV_map: "map elem_length (map (RV True) s) = map length_of s"
  by (simp add: elem_length_def comp_def)

text \<open>
  Claim C2, as stated: a slice whose elements all measure successfully returns 2 plus the
  sum of their lengths plus the separators. A slice of one value whose \<open>LengthJSON\<close>
  reports the largest \<open>int\<close> returns a negative length, not that total.
\<close>

theorem Length_sequence_wraps:
  "succeeds (VOther (Some 9223372036854775807) None None (RStruct []))
   \<and> length_of (VOther (Some 9223372036854775807) None None (RStruct [])) = 9223372036854775807
   \<and> framed_total [9223372036854775807] = 9223372036854775809
   \<and> Length (VSliceInterface [VOther (Some 9223372036854775807) None None (RStruct [])])
       = Some (- 9223372036854775807, None)"
  by code_simp

text \<open>
  Claim C2, amended. For a sequence whose elements all measure successfully, \<open>Length\<close>
  returns the total of the claim as Go's \<open>int\<close> holds it: wrapped around to 64 bits, and
  hence the exact total whenever that fits. This holds for a \<open>[]interface{}\<close> on the fast
  path and for slices and arrays reached by reflection, where an element measures
  successfully when it is accessible and \<open>Length\<close> succeeds on it; the same elements
  give the same result on both paths.
\<close>

theorem Length_sequence:
  "((\<forall>v\<in>set s. succeeds v) \<longrightarrow>
      Length (VSliceInterface s) = Some (wrap64 (framed_total (map length_of s)), None)
      \<and> Length (VOther None None None (RSlice (map (RV True) s))) = Length (VSliceInterface s)
      \<and> Length (VOther None None None (RArray (map (RV True) s))) = Length (VSliceInterface s)
      \<and> (in_int64 (framed_total (map length_of s)) \<longrightarrow>
           Length (VSliceInterface s) = Some (framed_total (map length_of s), None)))
   \<and> ((\<forall>h\<in>set es. elem_succeeds h) \<longrightarrow>
      Length (VOther None None None (RSlice es))
        = Some (wrap64 (framed_total (map elem_length es)), None)
      \<and> Length (VOther None None None (RArray es))
        = Some (wrap64 (framed_total (map elem_length es)), None)
      \<and> (in_int64 (framed_total (map elem_length es)) \<longrightarrow>
           Length (VOther None None None (RSlice es))
             = Some (framed_total (map elem_length es), None)
           \<and> Length (VOther None None None (RArray es))
             = Some (framed_total (map elem_length es), None)))"
proof -
  have "jsonLenArray (map (RV True) s) = Some (wrap64 (framed_total (map length_of s)), None)"
    if "\<forall>v\<in>set s. succeeds v"
  proof -
    have "\<forall>h\<in>set (map (RV True) s). elem_succeeds h"
      using that by (simp add: elem_succeeds_def)
    from jsonLenArray_ok [OF this] show ?thesis
      by (simp only: length_of_RV_map)
  qed
  then show ?thesis
    by (simp add: jsonLenSliceInterface_ok jsonLenArray_ok wrap64_in_int64
        del: jsonLenSliceInterface.simps jsonLenArray.simps)
qed

theorem Length_sequence_witness:
  "succeeds (VInt 1) \<and> succeeds (VInt 2) \<and> succeeds (VInt 3)
   \<and> in_int64 (framed_total (map length_of [VInt 1, VInt 2, VInt 3]))
   \<and> Length (VSliceInterface [VInt 1, VInt 2, VInt 3]) = Some (7, None)
   \<and> Length (VOther None None None (RSlice (map (RV True) [VInt 1, VInt 2, VInt 3])))
       = Some (7, None)
   \<and> Length (VOther None None None (RArray (map (RV True) [VInt 1, VInt 2, VInt 3])))
       = Some (7, None)
   \<and> elem_succeeds (RV True (VBool True)) \<and> elem_succeeds (RV True (VString ''ab''))
   \<and> in_int64 (framed_total (map elem_length [RV True (VBool True), RV True (VString ''ab'')]))
   \<and> Length (VOther None None None (RSlice [RV True (VBool True), RV True (VString ''ab'')]))
       = Some (11, None)
   \<and> Length (VOther None None None (RArray [RV True (VBool True), RV True (VString ''ab'')]))
       = Some (11, None)"
proof -
  have i: "jsonLenInt 1 = 1" "jsonLenInt 2 = 1" "jsonLenInt 3 = 1"
    by code_simp+
  have s: "jsonLenString ''ab'' = 4"
    by code_simp
  have ok: "succeeds (VInt 1)" "succeeds (VInt 2)" "succeeds (VInt 3)"
    "elem_succeeds (RV True (VBool True))" "elem_succeeds (RV True (VString ''ab''))"
    by (simp_all add: succeeds_def elem_succeeds_def)
  have len: "map length_of [VInt 1, VInt 2, VInt 3] = [1, 1, 1]"
    "map elem_length [RV True (VBool True), RV True (VString ''ab'')] = [4, 4]"
    by (simp_all add: length_of_def elem_length_def i s jsonLenBool_def)
  have t: "framed_total [1, 1, 1] = 7" "framed_total [4, 4] = 11"
    by (simp_all add: framed_total_def)
  have r: "in_int64 7" "in_int64 11"
    by (simp_all add: in_int64_def)
  show ?thesis
    using Length_sequence [of "[VInt 1, VInt 2, VInt 3]"
        "[RV True (VBool True), RV True (VString ''ab'')]"] ok r
    unfolding len t
    by (simp add: wrap64_in_int64 del: Length.simps jsonLenV.simps)
qed

section \<open>Totals of records\<close>

lemma Length_record_omitted:
  "omitted f \<Longrightarrow> Length (VOther None None None (RStruct (pre @ f # post)))
     = Length (VOther None None None (RStruct (pre @ post)))"
  by (simp add: jsonLenStruct_loop_emitted del: jsonLenStruct_loop.simps)

lemma jsonLenString_ge_2: "2 \<le> jsonLenString s"
  by (simp add: jsonLenString_slowPath slowPath_eq)

lemma add64_in_int64: "in_int64 (a + b) \<Longrightarrow> add64 a b = a + b"
  by (simp add: add64_def wrap64_in_int64)

lemma in_int64_between: "0 \<le> k \<Longrightarrow> k \<le> l \<Longrightarrow> in_int64 l \<Longrightarrow> in_int64 k"
  by (simp add: in_int64_def)

lemma jsonLenStruct_loop_Cons_exact:
  assumes f: "\<not> omitted f" "elem_succeeds (fv f)" "0 \<le> elem_length (fv f)"
    and n: "0 \<le> n" "in_int64 (n + 1 + field_contribution f)"
  shows "jsonLenStruct_loop n (f # fs)
    = jsonLenStruct_loop (n + (if n = 0 then 0 else 1) + field_contribution f) fs"
proof (cases f rule: field_cases)
  case (1 name omitempty isEmpty can x)
  have no: "\<not> (omitempty \<and> isEmpty)"
    using f(1) by (simp add: 1 omitted_def)
  have x: "can" "Length x = Some (length_of x, None)" "0 \<le> length_of x"
    using f(2,3) by (simp_all add: 1 elem_succeeds_def elem_length_def succeeds_Length)
  have c: "field_contribution f = jsonLenString name + 1 + length_of x"
    by (simp add: 1 field_contribution_def elem_length_def)
  have s: "2 \<le> jsonLenString name"
    by (rule jsonLenString_ge_2)
  have a1: "add64 n 1 = n + 1"
    using n x(3) s by (intro add64_in_int64 in_int64_between [OF _ _ n(2)]) (simp_all add: c)
  have a2: "add64 (jsonLenString name) (length_of x) = jsonLenString name + length_of x"
    using n x(3) s by (intro add64_in_int64 in_int64_between [OF _ _ n(2)]) (simp_all add: c)
  have a3: "add64 (jsonLenString name + length_of x) 1 = jsonLenString name + length_of x + 1"
    using n x(3) s by (intro add64_in_int64 in_int64_between [OF _ _ n(2)]) (simp_all add: c)
  have a4: "add64 (n + (if n = 0 then 0 else 1)) (jsonLenString name + length_of x + 1)
      = n + (if n = 0 then 0 else 1) + (jsonLenString name + length_of x + 1)"
    using n x(3) s by (intro add64_in_int64 in_int64_between [OF _ _ n(2)]) (simp_all add: c)
  have "jsonLenStruct_loop n (f # fs)
      = jsonLenStruct_loop (add64 (if n \<noteq> 0 then add64 n 1 else n)
          (add64 (add64 (jsonLenString name) (length_of x)) 1)) fs"
    using no x(1,2) by (auto simp: 1 Let_def)
  also have "(if n \<noteq> 0 then add64 n 1 else n) = n + (if n = 0 then 0 else 1)"
    by (simp add: a1)
  also have "add64 (n + (if n = 0 then 0 else 1))
        (add64 (add64 (jsonLenString name) (length_of x)) 1)
      = n + (if n = 0 then 0 else 1) + field_contribution f"
    unfolding a2 a3 a4 c by simp
  finally show ?thesis .
qed

lemma field_contribution_ge_3:
  "0 \<le> elem_length (fv f) \<Longrightarrow> 3 \<le> field_contribution f"
  using jsonLenString_ge_2 [of "Name f"] by (simp add: field_contribution_def)

lemma emitted_Cons:
  "emitted (f # fs) = (if omitted f then emitted fs else f # emitted fs)"
  by (simp add: emitted_def)

lemma sum_field_contribution_nonneg:
  "\<forall>f\<in>set fs. omitted f \<or> elem_succeeds (fv f) \<and> 0 \<le> elem_length (fv f) \<Longrightarrow>
   0 \<le> sum_list (map field_contribution (emitted fs))"
proof (induction fs)
  case Nil
  show ?case by (simp add: emitted_def)
next
  case (Cons f fs)
  then show ?case
    using field_contribution_ge_3 [of f] by (auto simp: emitted_Cons)
qed

lemma jsonLenStruct_loop_exact:
  "\<forall>f\<in>set fs. omitted f \<or> elem_succeeds (fv f) \<and> 0 \<le> elem_length (fv f) \<Longrightarrow>
   0 \<le> n \<Longrightarrow>
   in_int64 (n + sum_list (map field_contribution (emitted fs)) + int (length (emitted fs))
      - (if n = 0 \<and> emitted fs \<noteq> [] then 1 else 0) + 2) \<Longrightarrow>
   jsonLenStruct_loop n fs =
     Some (n + sum_list (map field_contribution (emitted fs)) + int (length (emitted fs))
        - (if n = 0 \<and> emitted fs \<noteq> [] then 1 else 0) + 2, None)"
proof (induction fs arbitrary: n)
  case Nil
  then show ?case
    by (simp add: emitted_def add64_in_int64)
next
  case (Cons f fs)
  have fs: "\<forall>f\<in>set fs. omitted f \<or> elem_succeeds (fv f) \<and> 0 \<le> elem_length (fv f)"
    using Cons.prems(1) by simp
  show ?case
  proof (cases "omitted f")
    case True
    then show ?thesis
      using Cons.IH [OF fs Cons.prems(2)] Cons.prems(3)
      by (simp add: jsonLenStruct_loop_Cons_omitted emitted_Cons del: jsonLenStruct_loop.simps)
  next
    case False
    then have f: "elem_succeeds (fv f)" "0 \<le> elem_length (fv f)"
      using Cons.prems(1) by simp_all
    have c: "3 \<le> field_contribution f"
      using f(2) by (rule field_contribution_ge_3)
    have S: "0 \<le> sum_list (map field_contribution (emitted fs))"
      using fs by (rule sum_field_contribution_nonneg)
    let ?n = "n + (if n = 0 then 0 else 1) + field_contribution f"
    let ?T = "n + sum_list (map field_contribution (emitted (f # fs)))
      + int (length (emitted (f # fs)))
      - (if n = 0 \<and> emitted (f # fs) \<noteq> [] then 1 else 0) + 2"
    have T: "?T = ?n + sum_list (map field_contribution (emitted fs))
        + int (length (emitted fs)) - (if ?n = 0 \<and> emitted fs \<noteq> [] then 1 else 0) + 2"
      using False c Cons.prems(2) by (simp add: emitted_Cons)
    have n1: "in_int64 (n + 1 + field_contribution f)"
      using Cons.prems(2,3) c S False
      by (intro in_int64_between [OF _ _ Cons.prems(3)]) (simp_all add: emitted_Cons)
    have "jsonLenStruct_loop n (f # fs) = jsonLenStruct_loop ?n fs"
      using False f Cons.prems(2) n1 by (rule jsonLenStruct_loop_Cons_exact)
    also have "\<dots> = Some (?n + sum_list (map field_contribution (emitted fs))
        + int (length (emitted fs)) - (if ?n = 0 \<and> emitted fs \<noteq> [] then 1 else 0) + 2, None)"
    proof (rule Cons.IH [OF fs])
      show "0 \<le> ?n"
        using Cons.prems(2) c by simp
      show "in_int64 (?n + sum_list (map field_contribution (emitted fs))
        + int (length (emitted fs)) - (if ?n = 0 \<and> emitted fs \<noteq> [] then 1 else 0) + 2)"
        using Cons.prems(3) unfolding T .
    qed
    finally show ?thesis
      unfolding T .
  qed
qed

text \<open>
  When the value of every emitted field measures successfully with a length that is not
  negative, and the total of the record is one that an \<open>int\<close> holds, the running count is
  positive after the first emitted field and never wraps around; \<open>jsonLenStruct\<close> then
  returns the total of the specification.
\<close>

lemma Length_record_nonnegative:
  assumes "\<forall>f\<in>set fs. omitted f \<or> elem_succeeds (fv f) \<and> 0 \<le> elem_length (fv f)"
    and "in_int64 (record_total fs)"
  shows "Length (VOther None None None (RStruct fs)) = Some (record_total fs, None)"
proof -
  have t: "record_total fs = 0 + sum_list (map field_contribution (emitted fs))
      + int (length (emitted fs)) - (if (0 :: int) = 0 \<and> emitted fs \<noteq> [] then 1 else 0) + 2"
    by (cases "emitted fs") (simp_all add: record_total_def framed_total_def)
  have "jsonLenStruct_loop 0 fs = Some (record_total fs, None)"
    unfolding t using assms(1) by (rule jsonLenStruct_loop_exact) (use assms(2) t in simp_all)
  then show ?thesis
    by simp
qed

text \<open>
  Claim C3: an omitted field contributes nothing, an emitted field its quoted name, the
  colon and its value, and the total frames the emitted fields with one separator between
  any two of them. \<open>jsonLenStruct\<close> adds the separator before a field when the running
  count \<open>n\<close> is not zero, where the loops over elements and entries test the index; the
  count is zero after an emitted field when the contributions so far add up to zero, in
  \<open>int\<close> arithmetic. In \<open>struct{A: L(-4), B: true}\<close>, the field \<open>A\<close> contributes
  3 + 1 - 4 = 0; in \<open>struct{A: L(MaxInt64), B: L(MaxInt64 - 7), C: true}\<close> the count
  wraps around to zero after \<open>B\<close>. Both records have more than one emitted field, every
  field measures successfully, and \<open>Length\<close> returns 10 where the total of the claim is 11
  (for the second record, after wrap-around).
\<close>

theorem Length_record_separator_slip:
  "Length (VOther None None None (RStruct
      [Field ''A'' False False (RV True (VOther (Some (- 4)) None None (RStruct []))),
       Field ''B'' False False (RV True (VBool True))])) = Some (10, None)
   \<and> record_total
      [Field ''A'' False False (RV True (VOther (Some (- 4)) None None (RStruct []))),
       Field ''B'' False False (RV True (VBool True))] = 11
   \<and> Length (VOther None None None (RStruct
      [Field ''A'' False False
         (RV True (VOther (Some 9223372036854775807) None None (RStruct []))),
       Field ''B'' False False
         (RV True (VOther (Some 9223372036854775800) None None (RStruct []))),
       Field ''C'' False False (RV True (VBool True))])) = Some (10, None)
   \<and> wrap64 (record_total
      [Field ''A'' False False
         (RV True (VOther (Some 9223372036854775807) None None (RStruct []))),
       Field ''B'' False False
         (RV True (VOther (Some 9223372036854775800) None None (RStruct []))),
       Field ''C'' False False (RV True (VBool True))]) = 11"
  by code_simp

section \<open>Keys of reflected maps\<close>

lemma jsonLenMap_loop_Cons_panic:
  assumes "elem_succeeds h"
  shows "jsonLenMap_loop i n ((h, None) # m) = None"
proof -
  obtain x where h: "h = RV True x" and "succeeds x"
    using assms by (cases h) (auto simp: elem_succeeds_def)
  then have "Length x = Some (length_of x, None)"
    by (simp add: succeeds_Length)
  then show ?thesis
    by (simp add: h Let_def)
qed

lemma jsonLenMap_loop_panic:
  "\<forall>q\<in>set pre. rentry_succeeds q \<Longrightarrow> elem_succeeds h \<Longrightarrow>
   jsonLenMap_loop i (wrap64 a) (pre @ (h, None) # post) = None"
proof (induction pre arbitrary: i a)
  case Nil
  then show ?case
    by (simp add: jsonLenMap_loop_Cons_panic del: jsonLenMap_loop.simps)
next
  case (Cons q pre)
  have q: "rentry_succeeds q" and pre: "\<forall>q\<in>set pre. rentry_succeeds q"
    using Cons.prems(1) by simp_all
  have "jsonLenMap_loop i (wrap64 a) ((q # pre) @ (h, None) # post)
      = jsonLenMap_loop (i + 1)
          (wrap64 (a + (if i = 0 then 0 else 1) + rentry_contribution q))
          (pre @ (h, None) # post)"
    using jsonLenMap_loop_Cons_ok [OF q] by simp
  also have "\<dots> = None"
    using pre Cons.prems(2) by (rule Cons.IH)
  finally show ?case .
qed

lemma jsonLenMap_panic:
  assumes "\<forall>q\<in>set pre. rentry_succeeds q" and "elem_succeeds h"
  shows "jsonLenMap (pre @ (h, None) # post) = None"
  using jsonLenMap_loop_panic [OF assms, of 0 0 post] by (simp add: wrap64_0)

lemma reflected_text_entries:
  "map rentry_contribution (map (\<lambda>p. (RV True (VString (fst p)), Some (snd p))) sm)
     = map entry_contribution sm"
  by (simp add: rentry_contribution_def entry_contribution_def elem_length_def length_of_def
      comp_def)

text \<open>
  Claim C10. In a map reached by reflection, an entry contributes the length \<open>Length\<close>
  gives for its key, the colon, and the length of its value: for an \<open>int\<close> key the number
  of characters of its decimal representation, unquoted, and for a string key its quoted
  length, as in a text-keyed map. When every entry measures successfully (each key is
  accessible and measured, each lookup finds its value), the total frames these
  contributions as every composite does, in Go's \<open>int\<close>; a map with string keys measures
  the same by reflection as on the fast path. When the entries before an entry measure
  successfully and the lookup of its key, once measured, finds nothing, the call panics.
\<close>

theorem Length_reflected_map:
  "((\<forall>p\<in>set m. rentry_succeeds p) \<longrightarrow>
      Length (VOther None None None (RMap m))
        = Some (wrap64 (framed_total (map rentry_contribution m)), None)
      \<and> (in_int64 (framed_total (map rentry_contribution m)) \<longrightarrow>
           Length (VOther None None None (RMap m))
             = Some (framed_total (map rentry_contribution m), None)))
   \<and> rentry_contribution (RV True (VInt k), Some x)
       = int (length (decimal_int (sint k))) + 1 + length_of x
   \<and> rentry_contribution (RV True (VUint u), Some x)
       = int (length (decimal (unat u))) + 1 + length_of x
   \<and> rentry_contribution (RV True (VString t), Some x) = entry_contribution (t, x)
   \<and> rentry_contribution (RV True (VInt 12), Some x) = 2 + 1 + length_of x
   \<and> entry_contribution (''12'', x) = 4 + 1 + length_of x
   \<and> ((\<forall>p\<in>set sm. succeeds (snd p)) \<longrightarrow>
        Length (VOther None None None
          (RMap (map (\<lambda>p. (RV True (VString (fst p)), Some (snd p))) sm)))
          = Length (VMapStringInterface sm))
   \<and> ((\<forall>q\<in>set pre. rentry_succeeds q) \<and> elem_succeeds h \<longrightarrow>
        Length (VOther None None None (RMap (pre @ (h, None) # post))) = None)"
proof -
  have k: "jsonLenInt 12 = 2"
    by code_simp
  have s: "jsonLenString ''12'' = 4"
    by code_simp
  have "jsonLenMap (map (\<lambda>p. (RV True (VString (fst p)), Some (snd p))) sm)
      = Some (wrap64 (framed_total (map entry_contribution sm)), None)"
    if "\<forall>p\<in>set sm. succeeds (snd p)"
  proof -
    have "\<forall>p\<in>set (map (\<lambda>p. (RV True (VString (fst p)), Some (snd p))) sm).
        rentry_succeeds p"
      using that by (simp add: rentry_succeeds_def elem_succeeds_def succeeds_def)
    from jsonLenMap_ok [OF this] show ?thesis
      by (simp only: reflected_text_entries)
  qed
  moreover have "rentry_contribution (RV True (VInt k), Some x)
       = int (length (decimal_int (sint k))) + 1 + length_of x"
    by (simp add: rentry_contribution_def elem_length_def length_of_def jsonLenInt_digits)
  moreover have "rentry_contribution (RV True (VUint u), Some x)
       = int (length (decimal (unat u))) + 1 + length_of x"
    by (simp add: rentry_contribution_def elem_length_def length_of_def jsonLenUint_digits)
  moreover have "rentry_contribution (RV True (VString t), Some x) = entry_contribution (t, x)"
    by (simp add: rentry_contribution_def entry_contribution_def elem_length_def length_of_def)
  moreover have "rentry_contribution (RV True (VInt 12), Some x) = 2 + 1 + length_of x"
    by (simp add: rentry_contribution_def elem_length_def length_of_def k)
  moreover have "entry_contribution (''12'', x) = 4 + 1 + length_of x"
    by (simp add: entry_contribution_def s)
  ultimately show ?thesis
    by (simp add: jsonLenMap_ok jsonLenMapStringInterface_ok wrap64_in_int64 jsonLenMap_panic
        del: jsonLenMap.simps jsonLenMapStringInterface.simps)
qed

theorem Length_reflected_map_witness:
  "rentry_succeeds (RV True (VInt 12), Some (VBool True))
   \<and> rentry_succeeds (RV True (VInt 7), Some (VBool False))
   \<and> in_int64 (framed_total (map rentry_contribution
        [(RV True (VInt 12), Some (VBool True)), (RV True (VInt 7), Some (VBool False))]))
   \<and> Length (VOther None None None
        (RMap [(RV True (VInt 12), Some (VBool True)), (RV True (VInt 7), Some (VBool False))]))
       = Some (17, None)
   \<and> succeeds (VBool True) \<and> succeeds (VBool False)
   \<and> Length (VOther None None None
        (RMap [(RV True (VString ''12''), Some (VBool True)),
               (RV True (VString ''7''), Some (VBool False))]))
       = Some (21, None)
   \<and> Length (VMapStringInterface [(''12'', VBool True), (''7'', VBool False)]) = Some (21, None)
   \<and> elem_succeeds (RV True (VFloat (Float64 ''NaN'')))
   \<and> Length (VOther None None None
        (RMap ([(RV True (VInt 12), Some (VBool True))]
           @ (RV True (VFloat (Float64 ''NaN'')), None) # [])))
       = None"
proof -
  have i: "jsonLenInt 12 = 2" "jsonLenInt 7 = 1"
    by code_simp+
  have s: "jsonLenString ''12'' = 4" "jsonLenString ''7'' = 3"
    by code_simp+
  have ok: "rentry_succeeds (RV True (VInt 12), Some (VBool True))"
    "rentry_succeeds (RV True (VInt 7), Some (VBool False))"
    "succeeds (VBool True)" "succeeds (VBool False)"
    "elem_succeeds (RV True (VFloat (Float64 ''NaN'')))"
    by (simp_all add: rentry_succeeds_def elem_succeeds_def succeeds_def)
  have c: "map rentry_contribution
        [(RV True (VInt 12), Some (VBool True)), (RV True (VInt 7), Some (VBool False))]
      = [7, 7]"
    by (simp add: rentry_contribution_def elem_length_def length_of_def i jsonLenBool_def)
  have t: "framed_total [7, 7] = 17"
    by (simp add: framed_total_def)
  have r: "in_int64 17"
    by (simp add: in_int64_def)
  have m: "Length (VMapStringInterface [(''12'', VBool True), (''7'', VBool False)])
      = Some (21, None)"
    by (simp add: s jsonLenBool_def add64_def sub64_def wrap64_def)
  show ?thesis
    using Length_reflected_map
      [of "[(RV True (VInt 12), Some (VBool True)), (RV True (VInt 7), Some (VBool False))]"
          _ _ _ _ "[(''12'', VBool True), (''7'', VBool False)]"
          "[(RV True (VInt 12), Some (VBool True))]" "RV True (VFloat (Float64 ''NaN''))" "[]"]
      ok r m
    unfolding c t
    by (simp add: wrap64_in_int64 del: Length.simps jsonLenV.simps)
qed

section \<open>Propagation of errors\<close>

text \<open>
  Claim C4, as stated: no partial length accompanies the error. The slice of \<open>"abc"\<close> and
  a channel fails with the channel's error and the length 5 of the first element.
\<close>

theorem Length_partial_length_counterexample:
  "Length (VSliceInterface [VString ''abc'', VOther None None None (ROther ''chan int'')])
     = Some (5, Some (UnsupportedTypeError ''chan int''))"
  by code_simp

text \<open>
  Claim C4, amended. A composite succeeds exactly when every nested value it measures
  succeeds, so a composite holding a nested value that fails does not succeed. When the
  entries before an entry measure successfully and that entry fails, the composite fails
  with the error of that entry, unchanged, whatever comes before or after it, and the
  length returned with the error is the count accumulated when the failure was met, in
  Go's \<open>int\<close>:

  \<^item> for a \<open>[]interface{}\<close>, the sum of the lengths of the elements before;
  \<^item> for a \<open>map[string]interface{}\<close>, the sum of the contributions of the entries before;
  \<^item> for a reflected slice or array, the sum of the lengths of the elements before and
    one separator for each of them;
  \<^item> for a reflected map, the sum of the contributions of the entries before and one
    separator for each of them, less the separator not yet added when the failing key is
    not accessible;
  \<^item> for a record, what the record of the fields before the failing one measures, less
    its two braces.

  A pointer fails as the value it points to, with that value's count; a value of an
  unsupported kind and an inaccessible target fail with the count 0. Fields omitted by
  omit-if-empty are not measured and cannot fail.
\<close>

theorem Length_error_propagation:
  "((\<forall>u\<in>set pre. succeeds u) \<and> fails_with v e \<longrightarrow>
      Length (VSliceInterface (pre @ v # post))
        = Some (wrap64 (sum_list (map length_of pre)), Some e))
   \<and> ((\<forall>p\<in>set mpre. succeeds (snd p)) \<and> fails_with v e \<longrightarrow>
      Length (VMapStringInterface (mpre @ (k, v) # mpost))
        = Some (wrap64 (sum_list (map entry_contribution mpre)), Some e))
   \<and> ((\<forall>g\<in>set hpre. elem_succeeds g) \<and> elem_fails_with h e \<longrightarrow>
      Length (VOther None None None (RSlice (hpre @ h # hpost)))
        = Some (wrap64 (sum_list (map elem_length hpre) + int (length hpre)), Some e)
      \<and> Length (VOther None None None (RArray (hpre @ h # hpost)))
        = Some (wrap64 (sum_list (map elem_length hpre) + int (length hpre)), Some e))
   \<and> ((\<forall>q\<in>set rpre. rentry_succeeds q) \<and> rentry_fails_with p e \<longrightarrow>
      Length (VOther None None None (RMap (rpre @ p # rpost)))
        = Some (wrap64 (sum_list (map rentry_contribution rpre) + int (length rpre)
             - (if rpre \<noteq> [] \<and> \<not> CanInterface (fst p) then 1 else 0)), Some e))
   \<and> (Length (VOther None None None (RStruct fpre)) = Some (t, None)
        \<and> \<not> omitted f \<and> elem_fails_with (fv f) e \<longrightarrow>
      Length (VOther None None None (RStruct (fpre @ f # fpost)))
        = Some (wrap64 (t - 2), Some e))
   \<and> Length (VOther None None None (RPtr (Some (RV True x)))) = Length x
   \<and> Length (VOther None None None (RPtr (Some (RV False x)))) = Some (0, Some InterfaceError)
   \<and> Length (VOther None None None (ROther ty)) = Some (0, Some (UnsupportedTypeError ty))
   \<and> (succeeds (VSliceInterface s) \<longleftrightarrow> (\<forall>u\<in>set s. succeeds u))
   \<and> (succeeds (VMapStringInterface m) \<longleftrightarrow> (\<forall>p\<in>set m. succeeds (snd p)))
   \<and> (succeeds (VOther None None None (RSlice es)) \<longleftrightarrow> (\<forall>g\<in>set es. elem_succeeds g))
   \<and> (succeeds (VOther None None None (RArray es)) \<longleftrightarrow> (\<forall>g\<in>set es. elem_succeeds g))
   \<and> (succeeds (VOther None None None (RMap rm)) \<longleftrightarrow> (\<forall>q\<in>set rm. rentry_succeeds q))
   \<and> (succeeds (VOther None None None (RStruct fs))
        \<longleftrightarrow> (\<forall>g\<in>set fs. omitted g \<or> elem_succeeds (fv g)))"
proof -
  have slice: "(\<forall>u\<in>set pre. succeeds u) \<and> fails_with v e \<longrightarrow>
      Length (VSliceInterface (pre @ v # post))
        = Some (wrap64 (sum_list (map length_of pre)), Some e)"
    by (simp add: jsonLenSliceInterface_fail del: jsonLenSliceInterface.simps)
  have tmap: "(\<forall>p\<in>set mpre. succeeds (snd p)) \<and> fails_with v e \<longrightarrow>
      Length (VMapStringInterface (mpre @ (k, v) # mpost))
        = Some (wrap64 (sum_list (map entry_contribution mpre)), Some e)"
    by (simp add: jsonLenMapStringInterface_fail del: jsonLenMapStringInterface.simps)
  have array: "(\<forall>g\<in>set hpre. elem_succeeds g) \<and> elem_fails_with h e \<longrightarrow>
      Length (VOther None None None (RSlice (hpre @ h # hpost)))
        = Some (wrap64 (sum_list (map elem_length hpre) + int (length hpre)), Some e)
      \<and> Length (VOther None None None (RArray (hpre @ h # hpost)))
        = Some (wrap64 (sum_list (map elem_length hpre) + int (length hpre)), Some e)"
    by (simp add: jsonLenArray_fail del: jsonLenArray.simps)
  have rmap: "(\<forall>q\<in>set rpre. rentry_succeeds q) \<and> rentry_fails_with p e \<longrightarrow>
      Length (VOther None None None (RMap (rpre @ p # rpost)))
        = Some (wrap64 (sum_list (map rentry_contribution rpre) + int (length rpre)
             - (if rpre \<noteq> [] \<and> \<not> CanInterface (fst p) then 1 else 0)), Some e)"
    using jsonLenMap_fail [of rpre p e rpost] by (simp del: jsonLenMap.simps)
  have struct: "Length (VOther None None None (RStruct fpre)) = Some (t, None)
        \<and> \<not> omitted f \<and> elem_fails_with (fv f) e \<longrightarrow>
      Length (VOther None None None (RStruct (fpre @ f # fpost)))
        = Some (wrap64 (t - 2), Some e)"
    using jsonLenStruct_fail [of fpre t f e fpost] by (simp del: jsonLenStruct.simps)
  have rest: "Length (VOther None None None (RPtr (Some (RV True x)))) = Length x"
    "Length (VOther None None None (RPtr (Some (RV False x)))) = Some (0, Some InterfaceError)"
    "Length (VOther None None None (ROther ty)) = Some (0, Some (UnsupportedTypeError ty))"
    by simp_all
  show ?thesis
    using slice tmap array rmap struct rest
      succeeds_VSliceInterface [of s] succeeds_VMapStringInterface [of m]
      succeeds_RSlice [of es] succeeds_RArray [of es] succeeds_RMap [of rm]
      succeeds_RStruct [of fs]
    by blast
qed

theorem Length_error_propagation_witness:
  "succeeds (VString ''abc'')
   \<and> fails_with (VOther None None None (ROther ''chan int'')) (UnsupportedTypeError ''chan int'')
   \<and> Length (VSliceInterface
        ([VString ''abc''] @ VOther None None None (ROther ''chan int'') # [VBool True]))
       = Some (5, Some (UnsupportedTypeError ''chan int''))
   \<and> succeeds (VBool True)
   \<and> Length (VMapStringInterface
        ([(''a'', VBool True)] @ (''b'', VOther None None None (ROther ''chan int'')) # []))
       = Some (8, Some (UnsupportedTypeError ''chan int''))
   \<and> elem_succeeds (RV True (VBool True))
   \<and> elem_fails_with (RV True (VOther None None None (ROther ''chan int'')))
        (UnsupportedTypeError ''chan int'')
   \<and> Length (VOther None None None (RSlice
        ([RV True (VBool True)] @ RV True (VOther None None None (ROther ''chan int'')) # [])))
       = Some (5, Some (UnsupportedTypeError ''chan int''))
   \<and> Length (VOther None None None (RArray
        ([RV True (VBool True)] @ RV True (VOther None None None (ROther ''chan int'')) # [])))
       = Some (5, Some (UnsupportedTypeError ''chan int''))
   \<and> rentry_succeeds (RV True (VBool True), Some (VBool True))
   \<and> rentry_fails_with (RV True (VBool False), Some (VOther None None None (ROther ''chan int'')))
        (UnsupportedTypeError ''chan int'')
   \<and> Length (VOther None None None (RMap
        ([(RV True (VBool True), Some (VBool True))]
          @ (RV True (VBool False), Some (VOther None None None (ROther ''chan int''))) # [])))
       = Some (10, Some (UnsupportedTypeError ''chan int''))
   \<and> Length (VOther None None None (RStruct
        [Field ''Skipped'' True True (RV True (VOther None None None (ROther ''func()''))),
         Field ''A'' False False (RV True (VBool True))]))
       = Some (10, None)
   \<and> \<not> omitted (Field ''C'' False False (RV True (VOther None None None (ROther ''chan int''))))
   \<and> elem_fails_with
        (fv (Field ''C'' False False (RV True (VOther None None None (ROther ''chan int'')))))
        (UnsupportedTypeError ''chan int'')
   \<and> Length (VOther None None None (RStruct
        ([Field ''Skipped'' True True (RV True (VOther None None None (ROther ''func()''))),
          Field ''A'' False False (RV True (VBool True))]
          @ Field ''C'' False False (RV True (VOther None None None (ROther ''chan int'')))
          # [Field ''D'' False False (RV True (VBool True))])))
       = Some (8, Some (UnsupportedTypeError ''chan int''))
   \<and> Length (VOther None None None
        (RPtr (Some (RV True (VOther None None None (ROther ''chan int''))))))
       = Some (0, Some (UnsupportedTypeError ''chan int''))
   \<and> \<not> succeeds (VOther None None None (ROther ''chan int''))
   \<and> \<not> succeeds (VSliceInterface [VBool True, VOther None None None (ROther ''chan int'')])
   \<and> \<not> succeeds (VMapStringInterface [(''b'', VOther None None None (ROther ''chan int''))])
   \<and> \<not> elem_succeeds (RV False (VBool True))
   \<and> \<not> succeeds (VOther None None None (RSlice [RV False (VBool True)]))
   \<and> \<not> succeeds (VOther None None None (RArray [RV False (VBool True)]))
   \<and> \<not> rentry_succeeds (RV True (VFloat (Float64 ''NaN'')), None)
   \<and> \<not> succeeds (VOther None None None (RMap [(RV True (VFloat (Float64 ''NaN'')), None)]))
   \<and> \<not> succeeds (VOther None None None (RStruct
        [Field ''C'' False False (RV True (VOther None None None (ROther ''chan int'')))]))"
proof -
  have s: "jsonLenString ''abc'' = 5" "jsonLenString ''a'' = 3"
    by code_simp+
  have ok: "succeeds (VString ''abc'')" "succeeds (VBool True)"
    "elem_succeeds (RV True (VBool True))"
    "rentry_succeeds (RV True (VBool True), Some (VBool True))"
    by (simp_all add: succeeds_def elem_succeeds_def rentry_succeeds_def)
  have no: "fails_with (VOther None None None (ROther ''chan int''))
        (UnsupportedTypeError ''chan int'')"
    "elem_fails_with (RV True (VOther None None None (ROther ''chan int'')))
        (UnsupportedTypeError ''chan int'')"
    "rentry_fails_with (RV True (VBool False), Some (VOther None None None (ROther ''chan int'')))
        (UnsupportedTypeError ''chan int'')"
    "\<not> omitted (Field ''C'' False False (RV True (VOther None None None (ROther ''chan int''))))"
    "\<not> succeeds (VOther None None None (ROther ''chan int''))"
    "\<not> elem_succeeds (RV False (VBool True))"
    "\<not> rentry_succeeds (RV True (VFloat (Float64 ''NaN'')), None)"
    "\<not> elem_succeeds (RV True (VOther None None None (ROther ''chan int'')))"
    by (simp_all add: fails_with_def elem_fails_with_def rentry_fails_with_def omitted_def
        succeeds_def elem_succeeds_def rentry_succeeds_def)
  have len: "length_of (VString ''abc'') = 5" "length_of (VBool True) = 4"
    "entry_contribution (''a'', VBool True) = 8"
    "elem_length (RV True (VBool True)) = 4"
    "rentry_contribution (RV True (VBool True), Some (VBool True)) = 9"
    by (simp_all add: length_of_def elem_length_def entry_contribution_def
        rentry_contribution_def s jsonLenBool_def)
  have pre: "Length (VOther None None None (RStruct
        [Field ''Skipped'' True True (RV True (VOther None None None (ROther ''func()''))),
         Field ''A'' False False (RV True (VBool True))]))
       = Some (10, None)"
    by code_simp
  have w: "wrap64 5 = 5" "wrap64 8 = 8" "wrap64 10 = 10"
    by (simp_all add: wrap64_def)
  show ?thesis
    using Length_error_propagation
      [where pre = "[VString ''abc'']" and v = "VOther None None None (ROther ''chan int'')"
         and e = "UnsupportedTypeError ''chan int''" and post = "[VBool True]"
         and mpre = "[(''a'', VBool True)]" and k = "''b''" and mpost = "[]"
         and hpre = "[RV True (VBool True)]"
         and h = "RV True (VOther None None None (ROther ''chan int''))" and hpost = "[]"
         and rpre = "[(RV True (VBool True), Some (VBool True))]"
         and p = "(RV True (VBool False), Some (VOther None None None (ROther ''chan int'')))"
         and rpost = "[]"
         and fpre = "[Field ''Skipped'' True True
                        (RV True (VOther None None None (ROther ''func()''))),
                      Field ''A'' False False (RV True (VBool True))]"
         and t = 10
         and f = "Field ''C'' False False (RV True (VOther None None None (ROther ''chan int'')))"
         and fpost = "[Field ''D'' False False (RV True (VBool True))]"
         and x = "VOther None None None (ROther ''chan int'')" and ty = "''chan int''"
         and s = "[VBool True, VOther None None None (ROther ''chan int'')]"
         and m = "[(''b'', VOther None None None (ROther ''chan int''))]"
         and es = "[RV False (VBool True)]"
         and rm = "[(RV True (VFloat (Float64 ''NaN'')), None)]"
         and fs = "[Field ''C'' False False
                      (RV True (VOther None None None (ROther ''chan int'')))]"]
      ok no pre
    by (simp add: len w del: Length.simps jsonLenV.simps)
qed

section \<open>Traversal order of maps\<close>








end
